theory Spec2Isabelle
  imports Main "HOL-Library.Multiset"
begin

section \<open>Go values shared by the model\<close>

text \<open>
  A Go \<open>error\<close> value is carried as its message; \<open>nil\<close> is \<open>None\<close> of
  \<open>error option\<close>. A \<open>cli.ExitError\<close> keeps its message and its exit code.
\<close>

type_synonym error = string

datatype exit_error = ExitError string int

text \<open>
  The code the cli framework hands to \<open>os.Exit\<close> for the value an Action returns:
  \<open>nil\<close> is success, an ExitError carries its own code.
\<close>

fun exit_status :: "exit_error option \<Rightarrow> int" where
  "exit_status None = 0"
| "exit_status (Some (ExitError msg code)) = code"

section \<open>Paths: Go's path/filepath on Unix\<close>

text \<open>
  The elements of a path are the pieces between separators; \<open>a//b\<close> has an empty
  element in the middle.
\<close>

fun elems :: "string \<Rightarrow> string list" where
  "elems [] = [[]]"
| "elems (c # cs) =
     (if c = CHR ''/'' then [] # elems cs
      else (case elems cs of [] \<Rightarrow> [[c]] | e # es \<Rightarrow> (c # e) # es))"

text \<open>
  One step of \<open>filepath.Clean\<close> on the elements written so far (kept in reverse, the
  last written element first): empty and \<open>.\<close> elements are dropped, \<open>..\<close> removes the
  last real element when there is one, is dropped at the root, and is kept otherwise.
\<close>

definition clean_step :: "bool \<Rightarrow> string list \<Rightarrow> string \<Rightarrow> string list" where
  "clean_step rooted out e =
     (if e = [] \<or> e = ''.'' then out
      else if e = ''..'' then
        (case out of
           [] \<Rightarrow> (if rooted then [] else [''..''])
         | x # xs \<Rightarrow> (if x \<noteq> ''..'' then xs else if rooted then out else ''..'' # out))
      else e # out)"

fun join_sep :: "string list \<Rightarrow> string" where
  "join_sep [] = []"
| "join_sep [e] = e"
| "join_sep (e # es) = e @ ''/'' @ join_sep es"

definition Clean :: "string \<Rightarrow> string" where
  "Clean path =
     (if path = [] then ''.''
      else
        (let rooted = (hd path = CHR ''/'');
             out = rev (foldl (clean_step rooted) [] (elems path));
             s = (if rooted then ''/'' else []) @ join_sep out
         in if s = [] then ''.'' else s))"

text \<open>\<open>filepath.Join\<close>: leading empty elements are ignored, the rest is joined and cleaned.\<close>

definition Join :: "string list \<Rightarrow> string" where
  "Join elem =
     (case dropWhile (\<lambda>e. e = []) elem of
        [] \<Rightarrow> []
      | es \<Rightarrow> Clean (join_sep es))"

text \<open>\<open>filepath.Dir\<close>: everything up to the last separator, cleaned.\<close>

definition Dir :: "string \<Rightarrow> string" where
  "Dir path = Clean (rev (dropWhile (\<lambda>c. c \<noteq> CHR ''/'') (rev path)))"

text \<open>\<open>filepath.Base\<close>: the last element, trailing separators removed first.\<close>

definition Base :: "string \<Rightarrow> string" where
  "Base path =
     (if path = [] then ''.''
      else
        (let p = rev (dropWhile (\<lambda>c. c = CHR ''/'') (rev path));
             b = rev (takeWhile (\<lambda>c. c \<noteq> CHR ''/'') (rev p))
         in if b = [] then ''/'' else b))"

subsection \<open>Cleaned paths\<close>

text \<open>
  A cleaned path is written from a list of elements: none is empty or \<open>.\<close>, none holds a
  separator, and \<open>..\<close> stands only at the front of a path that is not rooted.
\<close>

definition render :: "bool \<Rightarrow> string list \<Rightarrow> string" where
  "render rooted out =
     (let s = (if rooted then ''/'' else []) @ join_sep (rev out)
      in if s = [] then ''.'' else s)"

lemma Clean_render:
  "Clean path =
     (if path = [] then ''.''
      else render (hd path = CHR ''/'') (foldl (clean_step (hd path = CHR ''/'')) [] (elems path)))"
  by (simp add: Clean_def render_def Let_def)

fun okstack :: "bool \<Rightarrow> string list \<Rightarrow> bool" where
  "okstack rooted [] = True"
| "okstack rooted (x # xs) =
     (x \<noteq> [] \<and> CHR ''/'' \<notin> set x \<and> x \<noteq> ''.''
      \<and> (x = ''..'' \<longrightarrow> \<not> rooted \<and> (\<forall>y \<in> set xs. y = ''..''))
      \<and> okstack rooted xs)"

lemma elems_nonempty: "elems p \<noteq> []"
  by (induction p) (auto split: list.splits)

lemma elems_no_sep: "e \<in> set (elems p) \<Longrightarrow> CHR ''/'' \<notin> set e"
  by (induction p arbitrary: e) (auto split: list.splits if_splits)

lemma elems_single: "CHR ''/'' \<notin> set e \<Longrightarrow> elems e = [e]"
  by (induction e) auto

lemma elems_append_sep: "elems (x @ CHR ''/'' # y) = elems x @ elems y"
proof (induction x)
  case Nil
  show ?case using elems_nonempty [of y] by (cases "elems y") auto
next
  case (Cons c x)
  show ?case
  proof (cases "c = CHR ''/''")
    case True
    with Cons show ?thesis by simp
  next
    case False
    obtain e es where e: "elems x = e # es"
      using elems_nonempty [of x] by (cases "elems x") auto
    with False Cons show ?thesis by simp
  qed
qed

lemma clean_step_ok:
  "okstack r out \<Longrightarrow> CHR ''/'' \<notin> set e \<Longrightarrow> okstack r (clean_step r out e)"
  by (cases out) (auto simp: clean_step_def)

lemma foldl_clean_step_ok:
  "okstack r out \<Longrightarrow> \<forall>e \<in> set es. CHR ''/'' \<notin> set e \<Longrightarrow> okstack r (foldl (clean_step r) out es)"
proof (induction es arbitrary: out)
  case Nil
  then show ?case by simp
next
  case (Cons e es)
  from Cons.prems have "okstack r (clean_step r out e)"
    using clean_step_ok by simp
  with Cons show ?case by simp
qed

lemma replay: "okstack r out \<Longrightarrow> foldl (clean_step r) [] (rev out) = out"
proof (induction out)
  case Nil
  show ?case by simp
next
  case (Cons x xs)
  then have "foldl (clean_step r) [] (rev xs) = xs" by simp
  then have "foldl (clean_step r) [] (rev (x # xs)) = clean_step r xs x" by simp
  also have "\<dots> = x # xs"
  proof (cases "x = ''..''")
    case True
    with Cons.prems have nr: "\<not> r" and dd: "\<forall>y \<in> set xs. y = ''..''" by simp_all
    show ?thesis
    proof (cases xs)
      case Nil
      with True nr show ?thesis by (simp add: clean_step_def)
    next
      case (Cons y ys)
      with dd have "y = ''..''" by simp
      with True nr Cons show ?thesis by (simp add: clean_step_def)
    qed
  next
    case False
    moreover from Cons.prems have "x \<noteq> []" "x \<noteq> ''.''" by simp_all
    ultimately show ?thesis by (simp add: clean_step_def)
  qed
  finally show ?case .
qed

lemma elems_join_sep:
  "es \<noteq> [] \<Longrightarrow> \<forall>e \<in> set es. CHR ''/'' \<notin> set e \<Longrightarrow> elems (join_sep es) = es"
proof (induction es rule: join_sep.induct)
  case 1
  then show ?case by simp
next
  case (2 e)
  then show ?case by (simp add: elems_single)
next
  case (3 e v va)
  then have "elems (join_sep (v # va)) = v # va" by simp
  moreover have "elems (e @ CHR ''/'' # join_sep (v # va)) = elems e @ elems (join_sep (v # va))"
    by (rule elems_append_sep)
  ultimately show ?case using 3 by (simp add: elems_single)
qed

lemma okstack_no_sep: "okstack r out \<Longrightarrow> e \<in> set out \<Longrightarrow> CHR ''/'' \<notin> set e \<and> e \<noteq> []"
  by (induction out) auto


lemma join_sep_nonempty: "es \<noteq> [] \<Longrightarrow> \<forall>e \<in> set es. e \<noteq> [] \<Longrightarrow> join_sep es \<noteq> []"
  by (induction es rule: join_sep.induct) auto

lemma hd_join_sep: "es \<noteq> [] \<Longrightarrow> \<forall>e \<in> set es. e \<noteq> [] \<Longrightarrow> hd (join_sep es) = hd (hd es)"
  by (induction es rule: join_sep.induct) auto

lemma join_sep_snoc: "es \<noteq> [] \<Longrightarrow> join_sep (es @ [e]) = join_sep es @ CHR ''/'' # e"
  by (induction es rule: join_sep.induct) auto

text \<open>A cleaned path, read again, gives back the elements it was written from.\<close>

lemma render_replay:
  assumes "okstack r out"
  shows "render r out \<noteq> []"
    and "(hd (render r out) = CHR ''/'') = r"
    and "foldl (clean_step r) [] (elems (render r out)) = out"
proof -
  have ne: "\<forall>e \<in> set (rev out). e \<noteq> []" and ns: "\<forall>e \<in> set (rev out). CHR ''/'' \<notin> set e"
    using assms okstack_no_sep by auto
  show "render r out \<noteq> []"
    by (simp add: render_def Let_def)
  show "(hd (render r out) = CHR ''/'') = r"
  proof (cases "out = []")
    case True
    then show ?thesis by (simp add: render_def)
  next
    case False
    then have "rev out \<noteq> []" by simp
    then have j: "join_sep (rev out) \<noteq> []" and h: "hd (join_sep (rev out)) = hd (hd (rev out))"
      using ne join_sep_nonempty hd_join_sep by blast+
    have "hd (rev out) \<in> set (rev out)"
      using \<open>rev out \<noteq> []\<close> hd_in_set by blast
    then have "hd (hd (rev out)) \<noteq> CHR ''/''"
      using ne ns by (metis hd_in_set)
    with j h show ?thesis by (simp add: render_def)
  qed
  show "foldl (clean_step r) [] (elems (render r out)) = out"
  proof (cases "out = []")
    case True
    then show ?thesis by (cases r) (simp_all add: render_def clean_step_def)
  next
    case False
    then have "rev out \<noteq> []" by simp
    then have j: "join_sep (rev out) \<noteq> []" and e: "elems (join_sep (rev out)) = rev out"
      using ne ns join_sep_nonempty elems_join_sep by blast+
    have "foldl (clean_step r) [] (rev out) = out"
      using assms by (rule replay)
    with j e show ?thesis
      by (cases r) (simp_all add: render_def clean_step_def)
  qed
qed

lemma Clean_is_render: "\<exists>r out. okstack r out \<and> Clean path = render r out"
proof (cases "path = []")
  case True
  have "okstack False [] \<and> Clean path = render False []"
    using True by (simp add: Clean_def render_def)
  then show ?thesis by blast
next
  case False
  let ?r = "hd path = CHR ''/''"
  have "okstack ?r (foldl (clean_step ?r) [] (elems path))"
    by (rule foldl_clean_step_ok) (auto dest: elems_no_sep)
  with False show ?thesis
    using Clean_render [of path] by auto
qed

definition regular :: "string \<Rightarrow> bool" where
  "regular e = (e \<noteq> [] \<and> CHR ''/'' \<notin> set e \<and> e \<noteq> ''.'' \<and> e \<noteq> ''..'')"

lemma Clean_render_append:
  assumes "okstack r out" and "regular e"
  shows "Clean (render r out @ CHR ''/'' # e) = render r (e # out)"
proof -
  let ?D = "render r out"
  have D: "?D \<noteq> []" "(hd ?D = CHR ''/'') = r" "foldl (clean_step r) [] (elems ?D) = out"
    using render_replay [OF assms(1)] by simp_all
  have "elems (?D @ CHR ''/'' # e) = elems ?D @ [e]"
    using assms(2) by (simp add: elems_append_sep elems_single regular_def)
  then have "foldl (clean_step r) [] (elems (?D @ CHR ''/'' # e)) = clean_step r out e"
    using D(3) by simp
  also have "\<dots> = e # out"
    using assms(2) by (simp add: clean_step_def regular_def)
  finally have "foldl (clean_step r) [] (elems (?D @ CHR ''/'' # e)) = e # out" .
  moreover have "(hd (?D @ CHR ''/'' # e) = CHR ''/'') = r"
    using D(1) D(2) by simp
  ultimately show ?thesis
    using D(1) Clean_render [of "?D @ CHR ''/'' # e"] by simp
qed


lemma Clean_render_slash:
  assumes "okstack r out"
  shows "Clean (render r out @ ''/'') = render r out"
proof -
  let ?D = "render r out"
  have D: "?D \<noteq> []" "(hd ?D = CHR ''/'') = r" "foldl (clean_step r) [] (elems ?D) = out"
    using render_replay [OF assms(1)] by simp_all
  have "elems (?D @ CHR ''/'' # []) = elems ?D @ [[]]"
    by (simp only: elems_append_sep elems.simps)
  then have "foldl (clean_step r) [] (elems (?D @ ''/'')) = clean_step r out []"
    using D(3) by simp
  then have "foldl (clean_step r) [] (elems (?D @ ''/'')) = out"
    by (simp add: clean_step_def)
  moreover have "(hd (?D @ ''/'') = CHR ''/'') = r"
    using D(1) D(2) by simp
  ultimately show ?thesis
    using D(1) Clean_render [of "?D @ ''/''"] by simp
qed

lemma takeWhile_all_append: "\<forall>c \<in> set xs. P c \<Longrightarrow> takeWhile P (xs @ ys) = xs @ takeWhile P ys"
  by (induction xs) auto

lemma dropWhile_all_append: "\<forall>c \<in> set xs. P c \<Longrightarrow> dropWhile P (xs @ ys) = dropWhile P ys"
  by (induction xs) auto

lemma Base_last_element:
  assumes "e \<noteq> []" and "CHR ''/'' \<notin> set e" and "z = [] \<or> last z = CHR ''/''"
  shows "Base (z @ e) = e"
proof -
  have h: "hd (rev e) \<noteq> CHR ''/''"
    using assms(1,2) by (metis hd_rev last_in_set)
  have "dropWhile (\<lambda>c. c = CHR ''/'') (rev e @ rev z) = rev e @ rev z"
    using assms(1) h by (cases "rev e") auto
  moreover have "takeWhile (\<lambda>c. c \<noteq> CHR ''/'') (rev e @ rev z) = rev e"
  proof -
    have "takeWhile (\<lambda>c. c \<noteq> CHR ''/'') (rev z) = []"
      using assms(3) by (cases "rev z") (auto simp: last_rev hd_rev dest: arg_cong [where f = rev])
    moreover have "\<forall>c \<in> set (rev e). c \<noteq> CHR ''/''"
      using assms(2) by auto
    ultimately show ?thesis
      using takeWhile_all_append [of "rev e" "\<lambda>c. c \<noteq> CHR ''/''" "rev z"] by simp
  qed
  ultimately show ?thesis
    using assms(1) by (simp add: Base_def Let_def)
qed

lemma Dir_last_element:
  assumes "CHR ''/'' \<notin> set e" and "z = [] \<or> last z = CHR ''/''"
  shows "Dir (z @ e) = Clean z"
proof -
  have "dropWhile (\<lambda>c. c \<noteq> CHR ''/'') (rev e @ rev z) = dropWhile (\<lambda>c. c \<noteq> CHR ''/'') (rev z)"
    using assms(1) dropWhile_all_append [of "rev e" "\<lambda>c. c \<noteq> CHR ''/''" "rev z"] by auto
  also have "\<dots> = rev z"
    using assms(2) by (cases "rev z") (auto simp: last_rev hd_rev dest: arg_cong [where f = rev])
  finally show ?thesis
    by (simp add: Dir_def)
qed


lemma Base_no_sep:
  assumes "Base path \<noteq> ''/''"
  shows "Base path \<noteq> []" and "CHR ''/'' \<notin> set (Base path)"
proof -
  show "Base path \<noteq> []"
    by (simp add: Base_def Let_def)
  show "CHR ''/'' \<notin> set (Base path)"
    using assms by (auto simp: Base_def Let_def dest: set_takeWhileD split: if_splits)
qed

lemma render_cons:
  assumes "okstack r out" and "e \<noteq> []"
  shows "\<exists>z. render r (e # out) = z @ e \<and> (z = [] \<or> last z = CHR ''/'') \<and> Clean z = render r out"
proof (cases "out = []")
  case True
  show ?thesis
  proof (cases r)
    case True
    with \<open>out = []\<close> assms(2) have "render r (e # out) = ''/'' @ e \<and> Clean ''/'' = render r out"
      by (simp add: render_def Clean_def clean_step_def)
    then show ?thesis by force
  next
    case False
    with \<open>out = []\<close> assms(2) have "render r (e # out) = [] @ e \<and> Clean [] = render r out"
      by (simp add: render_def Clean_def)
    then show ?thesis by blast
  qed
next
  case False
  then have ro: "rev out \<noteq> []" by simp
  have "\<forall>x \<in> set (rev out). x \<noteq> []"
    using assms(1) okstack_no_sep by auto
  with ro have j: "join_sep (rev out) \<noteq> []"
    using join_sep_nonempty by blast
  then have D: "render r out = (if r then ''/'' else []) @ join_sep (rev out)"
    by (simp add: render_def)
  have "render r (e # out) = (if r then ''/'' else []) @ join_sep (rev out @ [e])"
    using assms(2) ro by (simp add: render_def join_sep_snoc)
  also have "\<dots> = (render r out @ ''/'') @ e"
    using ro D by (simp add: join_sep_snoc)
  finally have "render r (e # out) = (render r out @ ''/'') @ e" .
  moreover have "Clean (render r out @ ''/'') = render r out"
    using assms(1) by (rule Clean_render_slash)
  ultimately show ?thesis by force
qed

section \<open>The shim command\<close>

text \<open>The flags of the \<open>shim\<close> sub-command and the global \<open>root\<close> option it reads.\<close>

record shim_context =
  root :: string
  container :: string
  process :: string
  proxy_exit_code :: bool
  proxy_stdio :: bool
  proxy_signal :: bool
  proxy_winsize :: bool

text \<open>
  What the Action meets outside itself: whether the agent can be reached, whether
  SIGUSR1 ever arrives, whether the terminal can be set raw, the exit code the agent's
  blocking wait reports (\<open>None\<close>: the wait never returns), and whether both output copy
  loops reach their end (\<open>wg.Wait\<close> returns only then).
\<close>

record shim_world =
  connect_err :: "error option"
  usr1_arrives :: bool
  setraw_err :: "error option"
  remote_exit :: "int option"
  outputs_finish :: bool

text \<open>The calls the Action makes, in program order.\<close>

datatype shim_event =
    NewKataAgent string
  | NotifySIGUSR1
  | RecvSIGUSR1
  | StopSIGUSR1
  | ProxyStdio string string
  | SetRawTerminal
  | MonitorTtySize string string
  | ForwardAllSignals string string
  | WaitProcess string string
  | SignalStop
  | RestoreTerminal
  | WgWait

text \<open>A run of the Action either returns a value or blocks for ever in a call.\<close>

datatype outcome = Returns "exit_error option" | Blocks

text \<open>
  Deferred calls run last-registered first when the Action returns. \<open>wg.Wait\<close> is the only
  one that can block.
\<close>

fun run_deferred :: "shim_world \<Rightarrow> shim_event list \<Rightarrow> shim_event list \<times> bool" where
  "run_deferred w [] = ([], True)"
| "run_deferred w (d # ds) =
     (if d = WgWait \<and> \<not> outputs_finish w then ([d], False)
      else (let (es, ok) = run_deferred w ds in (d # es, ok)))"

definition return_with ::
  "shim_world \<Rightarrow> shim_event list \<Rightarrow> shim_event list \<Rightarrow> exit_error option
     \<Rightarrow> shim_event list \<times> outcome" where
  "return_with w trace deferred r =
     (let (es, ok) = run_deferred w deferred
      in (trace @ es, if ok then Returns r else Blocks))"

definition agent_socket :: "shim_context \<Rightarrow> string" where
  "agent_socket c = Join [root c, container c, ''sandbox'', ''kata-agent.sock'']"

text \<open>Lines 62 to 67: only the process \<open>init\<close> waits for SIGUSR1.\<close>

definition wait_init :: "shim_context \<Rightarrow> shim_world \<Rightarrow> shim_event list \<times> bool" where
  "wait_init c w =
     (if process c = ''init'' then
        (if usr1_arrives w then ([NotifySIGUSR1, RecvSIGUSR1, StopSIGUSR1], True)
         else ([NotifySIGUSR1], False))
      else ([], True))"

text \<open>Lines 91 to 101: the value returned after the remote process has exited.\<close>

definition exit_result :: "shim_context \<Rightarrow> int \<Rightarrow> exit_error option" where
  "exit_result c exitcode =
     (if proxy_exit_code c then
        (if exitcode \<noteq> 0 then Some (ExitError [] exitcode) else None)
      else None)"

text \<open>
  Lines 69 to 101: the proxies that were asked for are started, each registering its
  deferred call, then the Action waits for the remote process.
\<close>

definition proxy_and_wait :: "shim_context \<Rightarrow> shim_world \<Rightarrow> shim_event list \<times> outcome" where
  "proxy_and_wait c w =
     (let (t2, d2) = (if proxy_stdio c
                      then ([ProxyStdio (container c) (process c)], [WgWait])
                      else ([], []))
      in case (if proxy_winsize c then setraw_err w else None) of
           Some err \<Rightarrow>
             return_with w (t2 @ [SetRawTerminal]) d2
               (Some (ExitError (''failed to set raw terminal: '' @ err) (- 1)))
         | None \<Rightarrow>
           (let (t3, d3) = (if proxy_winsize c
                            then (t2 @ [SetRawTerminal,
                                        MonitorTtySize (container c) (process c)],
                                  RestoreTerminal # d2)
                            else (t2, d2));
                (t4, d4) = (if proxy_signal c
                            then (t3 @ [ForwardAllSignals (container c) (process c)],
                                  SignalStop # d3)
                            else (t3, d3));
                t5 = t4 @ [WaitProcess (container c) (process c)]
            in case remote_exit w of
                 None \<Rightarrow> (t5, Blocks)
               | Some exitcode \<Rightarrow> return_with w t5 d4 (exit_result c exitcode)))"

text \<open>The Action of \<open>shimCommand\<close> (lines 53 to 102): its trace of calls and its outcome.\<close>

definition shimAction :: "shim_context \<Rightarrow> shim_world \<Rightarrow> shim_event list \<times> outcome" where
  "shimAction c w =
     (case connect_err w of
        Some e \<Rightarrow>
          ([NewKataAgent (agent_socket c)],
           Returns (Some (ExitError (''failed to connect to hyperstart proxy: '' @ e) (- 1))))
      | None \<Rightarrow>
          (let (g, passed) = wait_init c w
           in if \<not> passed then (NewKataAgent (agent_socket c) # g, Blocks)
              else
                (let (es, out) = proxy_and_wait c w
                 in (NewKataAgent (agent_socket c) # g @ es, out))))"

text \<open>The events that start a proxy, and the events of the SIGUSR1 gate.\<close>

fun proxy_activity :: "shim_event \<Rightarrow> bool" where
  "proxy_activity (ProxyStdio c p) = True"
| "proxy_activity SetRawTerminal = True"
| "proxy_activity (MonitorTtySize c p) = True"
| "proxy_activity (ForwardAllSignals c p) = True"
| "proxy_activity e = False"

fun usr1_event :: "shim_event \<Rightarrow> bool" where
  "usr1_event NotifySIGUSR1 = True"
| "usr1_event RecvSIGUSR1 = True"
| "usr1_event StopSIGUSR1 = True"
| "usr1_event e = False"

text \<open>What the invoking caller sees of a run: the exit status, when the Action returns.\<close>

fun shim_exit_status :: "outcome \<Rightarrow> int option" where
  "shim_exit_status (Returns r) = Some (exit_status r)"
| "shim_exit_status Blocks = None"

subsection \<open>Deferred calls\<close>

lemma run_deferred_all:
  "outputs_finish w \<or> WgWait \<notin> set ds \<Longrightarrow> run_deferred w ds = (ds, True)"
  by (induction ds) auto

lemma run_deferred_subset: "set (fst (run_deferred w ds)) \<subseteq> set ds"
  by (induction ds) (auto split: prod.splits)

lemma return_with_events:
  "set (fst (return_with w t ds r)) \<subseteq> set t \<union> set ds"
  using run_deferred_subset [of w ds]
  by (auto simp: return_with_def split: prod.splits)

lemma proxy_and_wait_no_usr1:
  "e \<in> set (fst (proxy_and_wait c w)) \<Longrightarrow> \<not> usr1_event e"
  unfolding proxy_and_wait_def Let_def
  by (auto split: if_splits option.splits dest!: set_mp [OF return_with_events])

subsection \<open>Exit-code propagation\<close>

text \<open>
  Claim C1. Suppose the Action reaches the agent's blocking wait and the wait reports
  the remote exit code \<open>n\<close> (the agent is reached, the process \<open>init\<close> gets its SIGUSR1,
  the terminal can be set raw when winsize proxying is on, and the output loops finish
  when stdio proxying is on). Then with \<open>--proxy-exit-code\<close> the Action returns nil for
  \<open>n = 0\<close> and an ExitError carrying \<open>n\<close> otherwise, so the exit status is \<open>n\<close>; without
  the flag it returns nil and the exit status is 0 whatever \<open>n\<close> is. In both cases the
  wait on the remote process is in the trace, so it happened before the Action returned.
\<close>

theorem shim_exit_code:
  assumes "connect_err w = None"
    and "process c = ''init'' \<longrightarrow> usr1_arrives w"
    and "proxy_winsize c \<longrightarrow> setraw_err w = None"
    and "proxy_stdio c \<longrightarrow> outputs_finish w"
    and "remote_exit w = Some n"
  shows "snd (shimAction c w) =
           Returns (if proxy_exit_code c \<and> n \<noteq> 0 then Some (ExitError [] n) else None)
       \<and> shim_exit_status (snd (shimAction c w)) = Some (if proxy_exit_code c then n else 0)
       \<and> WaitProcess (container c) (process c) \<in> set (fst (shimAction c w))"
  using assms
  by (auto simp: shimAction_def proxy_and_wait_def wait_init_def return_with_def
      exit_result_def run_deferred_all Let_def)

theorem shim_exit_code_witness:
  "shimAction
     \<lparr>root = ''/run/runv'', container = ''c1'', process = ''init'', proxy_exit_code = True,
      proxy_stdio = True, proxy_signal = True, proxy_winsize = False\<rparr>
     \<lparr>connect_err = None, usr1_arrives = True, setraw_err = None, remote_exit = Some 137,
      outputs_finish = True\<rparr>
   = ([NewKataAgent ''/run/runv/c1/sandbox/kata-agent.sock'', NotifySIGUSR1, RecvSIGUSR1,
       StopSIGUSR1, ProxyStdio ''c1'' ''init'', ForwardAllSignals ''c1'' ''init'',
       WaitProcess ''c1'' ''init'', SignalStop, WgWait],
      Returns (Some (ExitError [] 137)))
   \<and> shim_exit_status (snd (shimAction
     \<lparr>root = ''/run/runv'', container = ''c1'', process = ''init'', proxy_exit_code = True,
      proxy_stdio = True, proxy_signal = True, proxy_winsize = False\<rparr>
     \<lparr>connect_err = None, usr1_arrives = True, setraw_err = None, remote_exit = Some 137,
      outputs_finish = True\<rparr>)) = Some 137"
proof -
  let ?c = "\<lparr>root = ''/run/runv'', container = ''c1'', process = ''init'',
      proxy_exit_code = True, proxy_stdio = True, proxy_signal = True,
      proxy_winsize = False\<rparr>"
  let ?w = "\<lparr>connect_err = None, usr1_arrives = True, setraw_err = None,
      remote_exit = Some 137, outputs_finish = True\<rparr>"
  have trace: "fst (shimAction ?c ?w) =
      [NewKataAgent ''/run/runv/c1/sandbox/kata-agent.sock'', NotifySIGUSR1, RecvSIGUSR1,
       StopSIGUSR1, ProxyStdio ''c1'' ''init'', ForwardAllSignals ''c1'' ''init'',
       WaitProcess ''c1'' ''init'', SignalStop, WgWait]"
    by (simp add: shimAction_def proxy_and_wait_def wait_init_def return_with_def
        agent_socket_def Join_def Clean_def clean_step_def Let_def)
  have "snd (shimAction ?c ?w) = Returns (Some (ExitError [] 137))
      \<and> shim_exit_status (snd (shimAction ?c ?w)) = Some 137"
    using shim_exit_code [of ?w ?c 137] by simp
  with trace show ?thesis
    by (simp add: prod_eq_iff)
qed

subsection \<open>The readiness gate of the process init\<close>

text \<open>
  Claim C4. Once the agent is reached: for the process id \<open>init\<close> the Action subscribes
  to SIGUSR1 and blocks; while the signal has not arrived the trace holds nothing but the
  connection and the subscription, and the Action does not return. When the signal
  arrives it is received exactly once, the subscription is dropped, and every later
  event, the proxies among them, comes after these; no proxy starts before the signal
  is received. For any other process id the trace has no event of the gate at all.
\<close>

theorem init_readiness_gate:
  assumes "connect_err w = None"
  shows "(process c = ''init'' \<and> \<not> usr1_arrives w \<longrightarrow>
            shimAction c w = ([NewKataAgent (agent_socket c), NotifySIGUSR1], Blocks))
       \<and> (process c = ''init'' \<and> usr1_arrives w \<longrightarrow>
            (\<exists>rest. fst (shimAction c w) =
                [NewKataAgent (agent_socket c), NotifySIGUSR1, RecvSIGUSR1, StopSIGUSR1] @ rest
              \<and> rest = fst (proxy_and_wait c w)
              \<and> (\<forall>e \<in> set rest. \<not> usr1_event e)))
       \<and> (process c = ''init'' \<longrightarrow>
            (\<forall>e \<in> set (takeWhile (\<lambda>e. e \<noteq> RecvSIGUSR1) (fst (shimAction c w))).
               \<not> proxy_activity e))
       \<and> (process c \<noteq> ''init'' \<longrightarrow>
            fst (shimAction c w) = NewKataAgent (agent_socket c) # fst (proxy_and_wait c w)
          \<and> (\<forall>e \<in> set (fst (shimAction c w)). \<not> usr1_event e))"
  using assms proxy_and_wait_no_usr1 [of _ c w]
  by (auto simp: shimAction_def wait_init_def Let_def split: prod.splits)

theorem init_readiness_gate_witness:
  "shimAction
     \<lparr>root = ''/run/runv'', container = ''c1'', process = ''init'', proxy_exit_code = True,
      proxy_stdio = True, proxy_signal = True, proxy_winsize = True\<rparr>
     \<lparr>connect_err = None, usr1_arrives = False, setraw_err = None, remote_exit = Some 0,
      outputs_finish = True\<rparr>
   = ([NewKataAgent ''/run/runv/c1/sandbox/kata-agent.sock'', NotifySIGUSR1], Blocks)"
  using init_readiness_gate [of
      "\<lparr>connect_err = None, usr1_arrives = False, setraw_err = None, remote_exit = Some 0,
        outputs_finish = True\<rparr>"
      "\<lparr>root = ''/run/runv'', container = ''c1'', process = ''init'', proxy_exit_code = True,
        proxy_stdio = True, proxy_signal = True, proxy_winsize = True\<rparr>"]
  by (simp add: agent_socket_def Join_def Clean_def clean_step_def)

section \<open>The pid file\<close>

text \<open>
  \<open>fmt.Fprintf(f, "%d", pid)\<close>: the decimal digits of the number, most significant first,
  with a minus sign in front of a negative one.
\<close>

definition digit_char :: "nat \<Rightarrow> char" where
  "digit_char d = ''0123456789'' ! d"

function digits_of :: "nat \<Rightarrow> string" where
  "digits_of n = (if n < 10 then [digit_char n] else digits_of (n div 10) @ [digit_char (n mod 10)])"
  by pat_completeness auto
termination
  by (relation "measure (\<lambda>n. n)") auto

declare digits_of.simps [simp del]

definition sprintf_d :: "int \<Rightarrow> string" where
  "sprintf_d i = (if i < 0 then CHR ''-'' # digits_of (nat (- i)) else digits_of (nat i))"

text \<open>
  The files a process sees: each name that exists, with its content, and the names this
  process holds open. A name stands for one file: two different names are two files.
\<close>

record os_state =
  files :: "string \<rightharpoonup> string"
  handles :: "string list"

text \<open>
  What the system calls may do beyond the model (no permission, disk full): an error of
  \<open>open\<close>, a \<open>write\<close> that stops after some bytes, an error of \<open>rename\<close>.
\<close>

record os_faults =
  open_error :: "error option"
  write_error :: "(nat \<times> error) option"
  rename_error :: "error option"

text \<open>
  \<open>os.OpenFile(name, O_RDWR|O_CREATE|O_EXCL|O_SYNC, 0666)\<close>: fails when the name exists,
  creates an empty file otherwise.
\<close>

definition OpenFile_excl :: "os_faults \<Rightarrow> os_state \<Rightarrow> string \<Rightarrow> error + os_state" where
  "OpenFile_excl flt s name =
     (if files s name \<noteq> None then Inl ''file exists''
      else (case open_error flt of
              Some e \<Rightarrow> Inl e
            | None \<Rightarrow> Inr (s\<lparr>files := (files s)(name \<mapsto> []), handles := handles s @ [name]\<rparr>)))"

text \<open>
  Writing to an open file: the bytes that reach the file, and the states a reader can
  see while they arrive, one for each byte written.
\<close>

definition bytes_written :: "os_faults \<Rightarrow> string \<Rightarrow> string \<times> error option" where
  "bytes_written flt text =
     (case write_error flt of
        None \<Rightarrow> (text, None)
      | Some (k, e) \<Rightarrow> (take k text, Some e))"

definition write_states :: "os_state \<Rightarrow> string \<Rightarrow> string \<Rightarrow> os_state list" where
  "write_states s name text =
     map (\<lambda>i. s\<lparr>files := (files s)(name \<mapsto> take i text)\<rparr>) [1..<Suc (length text)]"

definition CloseFile :: "os_state \<Rightarrow> string \<Rightarrow> os_state" where
  "CloseFile s name = s\<lparr>handles := remove1 name (handles s)\<rparr>"

text \<open>\<open>os.Rename\<close>: the new name takes the file in one step, replacing what it named.\<close>

definition Rename :: "os_faults \<Rightarrow> os_state \<Rightarrow> string \<Rightarrow> string \<Rightarrow> error + os_state" where
  "Rename flt s old new =
     (case rename_error flt of
        Some e \<Rightarrow> Inl e
      | None \<Rightarrow>
          (if files s old = None then Inl ''no such file or directory''
           else if old = new then Inr s
           else Inr (s\<lparr>files := ((files s)(new := files s old))(old := None)\<rparr>)))"

definition tmpName :: "string \<Rightarrow> string" where
  "tmpName path = Join [Dir path, ''.'' @ Base path]"

text \<open>
  \<open>createPidFile\<close> (lines 274 to 289): the error it returns, and the states of the files
  from the one it starts in to the one it leaves, one for each step a reader can see.
\<close>

definition createPidFile ::
  "os_faults \<Rightarrow> os_state \<Rightarrow> string \<Rightarrow> int \<Rightarrow> error option \<times> os_state list" where
  "createPidFile flt s0 path pid =
     (case OpenFile_excl flt s0 (tmpName path) of
        Inl err \<Rightarrow> (Some err, [s0])
      | Inr s1 \<Rightarrow>
          (let (text, werr) = bytes_written flt (sprintf_d pid);
               ws = write_states s1 (tmpName path) text;
               s2 = CloseFile (s1\<lparr>files := (files s1)(tmpName path \<mapsto> text)\<rparr>) (tmpName path)
           in case werr of
                Some err \<Rightarrow> (Some err, s0 # s1 # ws @ [s2])
              | None \<Rightarrow>
                  (case Rename flt s2 (tmpName path) path of
                     Inl err \<Rightarrow> (Some err, s0 # s1 # ws @ [s2])
                   | Inr s3 \<Rightarrow> (None, s0 # s1 # ws @ [s2, s3]))))"

text \<open>No system call fails for a reason of its own.\<close>

definition no_faults :: os_faults where
  "no_faults = \<lparr>open_error = None, write_error = None, rename_error = None\<rparr>"

text \<open>Reading a pid file back: the number its digits denote.\<close>

definition decimal_value :: "string \<Rightarrow> nat" where
  "decimal_value ds = foldl (\<lambda>a c. 10 * a + (of_char c - 48)) 0 ds"

definition is_digit :: "char \<Rightarrow> bool" where
  "is_digit c = (c \<in> set ''0123456789'')"

lemma digit_char_cases:
  assumes "d < 10"
  shows "is_digit (digit_char d) \<and> of_char (digit_char d) = 48 + d"
proof -
  from assms have "d \<in> {0, 1, 2, 3, 4, 5, 6, 7, 8, 9}" by auto
  then show ?thesis
    by (auto simp: digit_char_def is_digit_def)
qed

lemma digits_of_digits: "c \<in> set (digits_of n) \<Longrightarrow> is_digit c"
proof (induction n rule: digits_of.induct)
  case (1 n)
  show ?case
  proof (cases "n < 10")
    case True
    with "1.prems" show ?thesis
      by (simp add: digits_of.simps [of n] digit_char_cases)
  next
    case False
    with "1.prems" "1.IH" show ?thesis
      by (auto simp: digits_of.simps [of n] digit_char_cases)
  qed
qed

lemma digits_of_nonempty: "digits_of n \<noteq> []"
  by (simp add: digits_of.simps [of n])

lemma decimal_value_snoc:
  "decimal_value (ds @ [c]) = 10 * decimal_value ds + (of_char c - 48)"
  by (simp add: decimal_value_def)

lemma decimal_value_digits_of: "decimal_value (digits_of n) = n"
proof (induction n rule: digits_of.induct)
  case (1 n)
  show ?case
  proof (cases "n < 10")
    case True
    then show ?thesis
      by (simp add: digits_of.simps [of n] decimal_value_def digit_char_cases)
  next
    case False
    then have "decimal_value (digits_of (n div 10)) = n div 10"
      using "1.IH" by simp
    with False show ?thesis
      by (simp add: digits_of.simps [of n] decimal_value_snoc digit_char_cases)
  qed
qed

lemma write_states_target:
  "s \<in> set (write_states s1 name text) \<Longrightarrow> name \<noteq> path \<Longrightarrow> files s path = files s1 path"
  by (auto simp: write_states_def)

lemma write_states_handles:
  "s \<in> set (write_states s1 name text) \<Longrightarrow> handles s = handles s1"
  by (auto simp: write_states_def)

lemma mset_close_after_open:
  "mset (remove1 name (hs @ [name])) = mset hs"
  by simp

lemma createPidFile_temp_exists:
  "files s0 (tmpName path) \<noteq> None \<Longrightarrow>
     createPidFile flt s0 path pid = (Some ''file exists'', [s0])"
  by (auto simp: createPidFile_def OpenFile_excl_def)

lemma createPidFile_target_states:
  assumes "tmpName path \<noteq> path" and "s \<in> set (snd (createPidFile flt s0 path pid))"
  shows "files s path = files s0 path \<or> files s path = Some (sprintf_d pid)"
  using assms
  by (auto simp: createPidFile_def OpenFile_excl_def bytes_written_def CloseFile_def
      Rename_def Let_def
      split: sum.splits option.splits if_splits prod.splits
      dest: write_states_target)

lemma createPidFile_closes:
  "mset (handles (last (snd (createPidFile flt s0 path pid)))) = mset (handles s0)"
  by (auto simp: createPidFile_def OpenFile_excl_def bytes_written_def CloseFile_def
      Rename_def Let_def
      split: sum.splits option.splits if_splits prod.splits)

lemma createPidFile_success:
  assumes "files s0 (tmpName path) = None" and "tmpName path \<noteq> path"
  shows "fst (createPidFile no_faults s0 path pid) = None"
    and "files (last (snd (createPidFile no_faults s0 path pid))) path = Some (sprintf_d pid)"
    and "files (last (snd (createPidFile no_faults s0 path pid))) (tmpName path) = None"
  using assms
  by (auto simp: createPidFile_def OpenFile_excl_def bytes_written_def CloseFile_def
      Rename_def Let_def no_faults_def
      split: sum.splits option.splits if_splits prod.splits)

subsection \<open>The temporary name\<close>

text \<open>
  For a path whose last element names a file (it is not \<open>.\<close>, and the path is not made of
  separators only), the temporary name is the last element with a dot in front, in the
  directory of the path.
\<close>

lemma tmpName_hidden_sibling:
  assumes "Base path \<noteq> ''.''" and "Base path \<noteq> ''/''"
  shows "Base (tmpName path) = CHR ''.'' # Base path" and "Dir (tmpName path) = Dir path"
proof -
  let ?e = "CHR ''.'' # Base path"
  have b: "Base path \<noteq> []" "CHR ''/'' \<notin> set (Base path)"
    using Base_no_sep [OF assms(2)] by simp_all
  then have reg: "regular ?e"
    using assms(1) by (simp add: regular_def)
  obtain r out where d: "okstack r out" "Dir path = render r out"
    using Clean_is_render [of "rev (dropWhile (\<lambda>c. c \<noteq> CHR ''/'') (rev path))"]
    by (auto simp: Dir_def)
  have dn: "Dir path \<noteq> []"
    using d render_replay(1) by simp
  then have "tmpName path = Clean (Dir path @ CHR ''/'' # ?e)"
    by (simp add: tmpName_def Join_def)
  then have t: "tmpName path = render r (?e # out)"
    using d reg Clean_render_append by simp
  obtain z where z: "render r (?e # out) = z @ ?e" "z = [] \<or> last z = CHR ''/''"
      "Clean z = render r out"
    using render_cons [OF d(1), of ?e] by auto
  have e1: "?e \<noteq> []" and e2: "CHR ''/'' \<notin> set ?e"
    using b by simp_all
  show "Base (tmpName path) = ?e"
    using t z(1) Base_last_element [OF e1 e2 z(2)] by simp
  show "Dir (tmpName path) = Dir path"
    using t z(1) z(3) d(2) Dir_last_element [OF e2 z(2)] by simp
qed

lemma tmpName_differs:
  assumes "Base path \<noteq> ''.''" and "Base path \<noteq> ''/''"
  shows "tmpName path \<noteq> path"
proof
  assume "tmpName path = path"
  then have "Base (tmpName path) = Base path" by simp
  with tmpName_hidden_sibling(1) [OF assms] show False by simp
qed

lemma sprintf_d_digits:
  assumes "0 \<le> pid"
  shows "sprintf_d pid \<noteq> []" and "\<forall>c \<in> set (sprintf_d pid). is_digit c"
    and "decimal_value (sprintf_d pid) = nat pid"
  using assms
  by (simp_all add: sprintf_d_def digits_of_nonempty digits_of_digits decimal_value_digits_of)

lemma tmpName_example: "tmpName ''/run/c1.pid'' = ''/run/.c1.pid''"
  by (simp add: tmpName_def Dir_def Base_def Join_def Clean_def clean_step_def Let_def)

lemma Base_example: "Base ''/run/c1.pid'' = ''c1.pid''"
  by (simp add: Base_def Let_def)

lemma sprintf_d_example: "sprintf_d 4242 = ''4242''"
  by (simp add: sprintf_d_def digits_of.simps digit_char_def)

subsection \<open>Creating the pid file\<close>

text \<open>
  Claim C5. For a path that names a file and a pid that is not negative:
  the temporary file is the base name of the target with a dot in front, in the
  directory of the target; when that name exists already nothing is created and an
  error is returned; the text written is the pid in decimal digits and nothing else (it
  is not empty, every character is a digit, and it reads back as the pid); the file is
  closed again whatever happens; when no system call fails the temporary name is gone
  and the target holds the pid; and at every step, whatever fails, a reader of the
  target path sees what was there before the call (no file, when there was none) or the
  complete pid, never a part of it.
\<close>

theorem createPidFile_atomic:
  assumes "Base path \<noteq> ''.''" and "Base path \<noteq> ''/''" and "0 \<le> pid"
  shows "Dir (tmpName path) = Dir path \<and> Base (tmpName path) = CHR ''.'' # Base path
       \<and> (files s0 (tmpName path) \<noteq> None \<longrightarrow>
            createPidFile flt s0 path pid = (Some ''file exists'', [s0]))
       \<and> sprintf_d pid \<noteq> [] \<and> (\<forall>c \<in> set (sprintf_d pid). is_digit c)
       \<and> decimal_value (sprintf_d pid) = nat pid
       \<and> mset (handles (last (snd (createPidFile flt s0 path pid)))) = mset (handles s0)
       \<and> (files s0 (tmpName path) = None \<longrightarrow>
            fst (createPidFile no_faults s0 path pid) = None
          \<and> files (last (snd (createPidFile no_faults s0 path pid))) path = Some (sprintf_d pid)
          \<and> files (last (snd (createPidFile no_faults s0 path pid))) (tmpName path) = None)
       \<and> (\<forall>s \<in> set (snd (createPidFile flt s0 path pid)).
            files s path = files s0 path \<or> files s path = Some (sprintf_d pid))"
proof -
  have d: "tmpName path \<noteq> path"
    using assms(1,2) by (rule tmpName_differs)
  show ?thesis
    using tmpName_hidden_sibling [OF assms(1,2)] sprintf_d_digits [OF assms(3)]
      createPidFile_temp_exists [of s0 path flt pid]
      createPidFile_closes [of flt s0 path pid]
      createPidFile_success [OF _ d, of s0 pid]
      createPidFile_target_states [OF d, of _ flt s0 pid]
    by simp
qed

theorem createPidFile_atomic_witness:
  "createPidFile no_faults \<lparr>files = Map.empty, handles = []\<rparr> ''/run/c1.pid'' 4242
     = (None,
        map (\<lambda>(target, temp, open). \<lparr>files = Map.empty(''/run/c1.pid'' := target, ''/run/.c1.pid'' := temp), handles = open\<rparr>)
          [(None, None, []),
           (None, Some [], [''/run/.c1.pid'']),
           (None, Some ''4'', [''/run/.c1.pid'']),
           (None, Some ''42'', [''/run/.c1.pid'']),
           (None, Some ''424'', [''/run/.c1.pid'']),
           (None, Some ''4242'', [''/run/.c1.pid'']),
           (None, Some ''4242'', []),
           (Some ''4242'', None, [])])
   \<and> Base (tmpName ''/run/c1.pid'') = ''.c1.pid''
   \<and> Dir (tmpName ''/run/c1.pid'') = Dir ''/run/c1.pid''
   \<and> files (last (snd (createPidFile no_faults \<lparr>files = Map.empty, handles = []\<rparr>
        ''/run/c1.pid'' 4242))) ''/run/c1.pid'' = Some ''4242''"
proof -
  let ?s0 = "\<lparr>files = Map.empty, handles = []\<rparr>"
  have run: "createPidFile no_faults ?s0 ''/run/c1.pid'' 4242
     = (None,
        map (\<lambda>(target, temp, open). \<lparr>files = Map.empty(''/run/c1.pid'' := target, ''/run/.c1.pid'' := temp), handles = open\<rparr>)
          [(None, None, []),
           (None, Some [], [''/run/.c1.pid'']),
           (None, Some ''4'', [''/run/.c1.pid'']),
           (None, Some ''42'', [''/run/.c1.pid'']),
           (None, Some ''424'', [''/run/.c1.pid'']),
           (None, Some ''4242'', [''/run/.c1.pid'']),
           (None, Some ''4242'', []),
           (Some ''4242'', None, [])])"
    by (simp add: createPidFile_def tmpName_example sprintf_d_example OpenFile_excl_def
        bytes_written_def write_states_def CloseFile_def Rename_def no_faults_def Let_def
        fun_eq_iff upt_rec)
  have "Base (tmpName ''/run/c1.pid'') = CHR ''.'' # Base ''/run/c1.pid''
      \<and> Dir (tmpName ''/run/c1.pid'') = Dir ''/run/c1.pid''
      \<and> files (last (snd (createPidFile no_faults ?s0 ''/run/c1.pid'' 4242))) ''/run/c1.pid''
          = Some (sprintf_d 4242)"
    using createPidFile_atomic [of "''/run/c1.pid''" 4242 ?s0 no_faults]
    by (simp add: Base_example tmpName_example)
  with run show ?thesis
    by (simp add: Base_example sprintf_d_example)
qed

subsection \<open>A target that exists already\<close>

text \<open>
  Claim C6 says that \<open>createPidFile\<close> returns an error when the target pid file exists
  already. It does not: the exclusive create is on the temporary name, and the rename
  replaces the target. Here the target holds the pid 17 of an earlier run, no temporary
  file is left, and the call returns no error and leaves 4242 in the target.
\<close>

theorem createPidFile_existing_target_counterexample:
  "files \<lparr>files = [''/run/c1.pid'' \<mapsto> ''17''], handles = []\<rparr> ''/run/c1.pid'' = Some ''17''
   \<and> fst (createPidFile no_faults \<lparr>files = [''/run/c1.pid'' \<mapsto> ''17''], handles = []\<rparr>
        ''/run/c1.pid'' 4242) = None
   \<and> files (last (snd (createPidFile no_faults
        \<lparr>files = [''/run/c1.pid'' \<mapsto> ''17''], handles = []\<rparr> ''/run/c1.pid'' 4242)))
        ''/run/c1.pid'' = Some ''4242''"
  by (simp add: createPidFile_def tmpName_example sprintf_d_example OpenFile_excl_def
      bytes_written_def write_states_def CloseFile_def Rename_def no_faults_def Let_def)

text \<open>
  Claim C6 as amended. \<open>createPidFile\<close> returns an error, and changes nothing, when the
  temporary name of the path exists already. When it does not exist and no system call
  fails, \<open>createPidFile\<close> succeeds whether or not the target exists: the target then holds
  the new pid and the temporary name is free again, so a second creation onto the same
  path succeeds as well and replaces the pid.
\<close>

theorem createPidFile_exclusive_on_temp:
  "(files s0 (tmpName path) \<noteq> None \<longrightarrow>
      createPidFile flt s0 path pid = (Some ''file exists'', [s0]))
   \<and> (files s0 (tmpName path) = None \<and> Base path \<noteq> ''.'' \<and> Base path \<noteq> ''/'' \<longrightarrow>
        fst (createPidFile no_faults s0 path pid) = None
      \<and> files (last (snd (createPidFile no_faults s0 path pid))) path = Some (sprintf_d pid)
      \<and> fst (createPidFile no_faults (last (snd (createPidFile no_faults s0 path pid))) path pid')
          = None
      \<and> files (last (snd (createPidFile no_faults
            (last (snd (createPidFile no_faults s0 path pid))) path pid'))) path
          = Some (sprintf_d pid'))"
proof (intro conjI impI)
  assume "files s0 (tmpName path) \<noteq> None"
  then show "createPidFile flt s0 path pid = (Some ''file exists'', [s0])"
    by (rule createPidFile_temp_exists)
next
  assume a: "files s0 (tmpName path) = None \<and> Base path \<noteq> ''.'' \<and> Base path \<noteq> ''/''"
  then have d: "tmpName path \<noteq> path"
    using tmpName_differs by blast
  let ?s1 = "last (snd (createPidFile no_faults s0 path pid))"
  from a have f: "files s0 (tmpName path) = None" by simp
  show "fst (createPidFile no_faults s0 path pid) = None"
    using f d by (rule createPidFile_success(1))
  show "files ?s1 path = Some (sprintf_d pid)"
    using f d by (rule createPidFile_success(2))
  have g: "files ?s1 (tmpName path) = None"
    using f d by (rule createPidFile_success(3))
  show "fst (createPidFile no_faults ?s1 path pid') = None"
    using g d by (rule createPidFile_success(1))
  show "files (last (snd (createPidFile no_faults ?s1 path pid'))) path = Some (sprintf_d pid')"
    using g d by (rule createPidFile_success(2))
qed

theorem createPidFile_exclusive_on_temp_witness:
  "createPidFile no_faults \<lparr>files = [''/run/.c1.pid'' \<mapsto> ''17''], handles = []\<rparr>
      ''/run/c1.pid'' 4242
     = (Some ''file exists'', [\<lparr>files = [''/run/.c1.pid'' \<mapsto> ''17''], handles = []\<rparr>])
   \<and> fst (createPidFile no_faults \<lparr>files = [''/run/c1.pid'' \<mapsto> ''17''], handles = []\<rparr>
        ''/run/c1.pid'' 4242) = None"
  using createPidFile_exclusive_on_temp
      [of "\<lparr>files = [''/run/.c1.pid'' \<mapsto> ''17''], handles = []\<rparr>" "''/run/c1.pid''"
        no_faults 4242 0]
    createPidFile_exclusive_on_temp
      [of "\<lparr>files = [''/run/c1.pid'' \<mapsto> ''17''], handles = []\<rparr>" "''/run/c1.pid''"
        no_faults 4242 0]
  by (simp add: tmpName_example Base_example)

section \<open>Launching the shim\<close>

text \<open>
  The options \<open>createShim\<close> reads: the command's \<open>console\<close>, \<open>console-socket\<close> and
  \<open>pid-file\<close>, the global \<open>agent\<close>, \<open>root\<close>, \<open>log_dir\<close> and \<open>debug\<close>, the pid of the
  container the launch is associated with (\<open>withContainer\<close>, nil when there is none) and
  whether the launch is attached.
\<close>

record runvOptions =
  console :: string
  console_socket :: string
  pid_file :: string
  global_agent :: string
  global_root :: string
  global_log_dir :: string
  global_debug :: bool
  withContainer :: "int option"
  attach :: bool

definition KataShimBinary :: string where
  "KataShimBinary = ''/usr/libexec/kata-containers/kata-shim''"

definition CLONE_NEWNET :: nat where
  "CLONE_NEWNET = 0x40000000"

text \<open>\<open>prepareKataShim\<close> (lines 159 to 171): it never fails.\<close>

definition prepareKataShim ::
  "runvOptions \<Rightarrow> string \<Rightarrow> string \<Rightarrow> bool \<Rightarrow> error + string \<times> string list" where
  "prepareKataShim options ctr proc terminal =
     (let args0 = [''kata-shim''];
          args1 = (if global_debug options then args0 @ [''--log'', ''debug''] else args0);
          agentAddr = Join [global_root options, ctr, ''sandbox'', ''kata-agent.sock''];
          args2 = args1 @ [''--agent'', agentAddr, ''--container'', ctr,
                           ''--exec-id'', proc];
          args3 = (if terminal then args2 @ [''--terminal''] else args2)
      in Inr (KataShimBinary, args3))"

text \<open>
  \<open>prepareRunvShim\<close> (lines 173 to 193), given what \<open>osext.Executable()\<close> answers and
  \<open>os.Args[0]\<close>.
\<close>

definition prepareRunvShim ::
  "error + string \<Rightarrow> string \<Rightarrow> runvOptions \<Rightarrow> string \<Rightarrow> string \<Rightarrow> bool
     \<Rightarrow> error + string \<times> string list" where
  "prepareRunvShim executable argv0 options ctr proc terminal =
     (case executable of
        Inl err \<Rightarrow> Inl (''cannot find self executable path for '' @ argv0 @ '': '' @ err)
      | Inr path \<Rightarrow>
          (let args0 = [''runv'', ''--root'', global_root options];
               args1 = (if global_log_dir options \<noteq> []
                        then args0 @ [''--log_dir'',
                                      Join [global_log_dir options, ''shim-'' @ ctr]]
                        else args0);
               args2 = (if global_debug options then args1 @ [''--debug''] else args1);
               args3 = args2 @ [''shim'', ''--container'', ctr, ''--process'', proc];
               args4 = args3 @ [''--proxy-stdio'', ''--proxy-exit-code'', ''--proxy-signal''];
               args5 = (if terminal then args4 @ [''--proxy-winsize''] else args4)
           in Inr (path, args5)))"

text \<open>The command that is started: \<open>exec.Cmd\<close> with the fields of \<open>SysProcAttr\<close> in use.\<close>

datatype stdio = Inherited | FromFile nat

record cmd =
  Path :: string
  Args :: "string list"
  WorkDir :: string
  Setctty :: bool
  Setsid :: bool
  Cloneflags :: nat
  Stdin :: stdio
  Stdout :: stdio
  Stderr :: stdio

text \<open>
  What the launch meets outside itself: the file opened for the console device, the pty
  pair, whether the master could be sent over the console socket, the path of the running
  executable, whether the namespace of the container's process can be entered, the pid
  of the started child, and the files.
\<close>

record launch_world =
  open_console :: "error + nat"
  pty_open :: "error + nat \<times> nat"
  sendtty_err :: "error option"
  executable :: "error + string"
  argv0 :: string
  enter_netns_err :: "error option"
  start_cmd :: "error + int"
  pid_faults :: os_faults
  disk :: os_state

text \<open>What \<open>createShim\<close> does to the system, in program order.\<close>

datatype launch_event =
    OpenedFile nat string
  | OpenedPty nat nat
  | SendTty string nat
  | ClosedFile nat
  | EnterNetns int
  | StartCmd cmd
  | Started int
  | Killed int

text \<open>
  Lines 198 to 212: the console of the child. The result is the tty (\<open>None\<close> is nil: the
  child inherits the caller's streams).

  Modelled from the spec: \<open>sendtty\<close> is not in the source given; it sends the master side
  over the console-socket path to an external listener and may fail.
\<close>

definition attach_console ::
  "launch_world \<Rightarrow> runvOptions \<Rightarrow> (error + nat option) \<times> launch_event list" where
  "attach_console w options =
     (if console options \<noteq> [] then
        (case open_console w of
           Inl err \<Rightarrow> (Inl err, [])
         | Inr tty \<Rightarrow> (Inr (Some tty), [OpenedFile tty (console options)]))
      else if console_socket options \<noteq> [] then
        (case pty_open w of
           Inl err \<Rightarrow> (Inl err, [])
         | Inr (ptymaster, tty) \<Rightarrow>
             (case sendtty_err w of
                Some err \<Rightarrow>
                  (Inl err, [OpenedPty ptymaster tty, SendTty (console_socket options) ptymaster])
              | None \<Rightarrow>
                  (Inr (Some tty),
                   [OpenedPty ptymaster tty, SendTty (console_socket options) ptymaster,
                    ClosedFile ptymaster])))
      else (Inr None, []))"

text \<open>\<open>cmd.Start()\<close>: the child runs when it returns no error.\<close>

definition Start :: "launch_world \<Rightarrow> cmd \<Rightarrow> (error + int) \<times> launch_event list" where
  "Start w c =
     (case start_cmd w of
        Inl err \<Rightarrow> (Inl err, [StartCmd c])
      | Inr pid \<Rightarrow> (Inr pid, [StartCmd c, Started pid]))"

text \<open>
  Modelled from the spec: \<open>nsSetRun\<close> is not in the source given. The spawn executes with
  the network namespace of the given process as its context: when the namespace cannot
  be entered the error is returned and nothing is started, otherwise the result is that
  of the start.
\<close>

definition nsSetRun :: "launch_world \<Rightarrow> int \<Rightarrow> cmd \<Rightarrow> (error + int) \<times> launch_event list" where
  "nsSetRun w pid c =
     (case enter_netns_err w of
        Some err \<Rightarrow> (Inl err, [EnterNetns pid])
      | None \<Rightarrow> (let (r, t) = Start w c in (r, EnterNetns pid # t)))"

text \<open>Lines 218 to 222: the binary and its arguments, by the global \<open>agent\<close> option.\<close>

definition prepare_shim ::
  "launch_world \<Rightarrow> runvOptions \<Rightarrow> string \<Rightarrow> string \<Rightarrow> bool \<Rightarrow> error + string \<times> string list" where
  "prepare_shim w options ctr proc terminal =
     (if global_agent options \<noteq> ''kata''
      then prepareRunvShim (executable w) (argv0 w) options ctr proc terminal
      else prepareKataShim options ctr proc terminal)"

text \<open>Lines 228 to 248: the command, its session attributes and its standard streams.\<close>

definition shim_cmd :: "runvOptions \<Rightarrow> string \<Rightarrow> string list \<Rightarrow> nat option \<Rightarrow> cmd" where
  "shim_cmd options path args tty =
     \<lparr>Path = path, Args = args, WorkDir = ''/'',
      Setctty = (tty \<noteq> None),
      Setsid = (tty \<noteq> None \<or> \<not> attach options),
      Cloneflags = 0,
      Stdin = (case tty of None \<Rightarrow> Inherited | Some f \<Rightarrow> FromFile f),
      Stdout = (case tty of None \<Rightarrow> Inherited | Some f \<Rightarrow> FromFile f),
      Stderr = (case tty of None \<Rightarrow> Inherited | Some f \<Rightarrow> FromFile f)\<rparr>"

text \<open>
  Lines 250 to 255: a new network namespace for the child, or the start inside the
  namespace of the container's process.
\<close>

definition spawn :: "launch_world \<Rightarrow> runvOptions \<Rightarrow> cmd \<Rightarrow> (error + int) \<times> launch_event list" where
  "spawn w options c =
     (case withContainer options of
        None \<Rightarrow> Start w (c\<lparr>Cloneflags := CLONE_NEWNET\<rparr>)
      | Some pid \<Rightarrow> nsSetRun w pid c)"

text \<open>
  \<open>createShim\<close> (lines 195 to 269): the process or the error it returns, what it did, and
  the files afterwards. The deferred \<open>tty.Close()\<close> of line 244 runs at every return
  below that line, after the statements of that return.
\<close>

definition createShim ::
  "launch_world \<Rightarrow> runvOptions \<Rightarrow> string \<Rightarrow> string \<Rightarrow> bool
     \<Rightarrow> (error + int) \<times> launch_event list \<times> os_state" where
  "createShim w options ctr proc terminal =
     (case attach_console w options of
        (Inl err, t1) \<Rightarrow> (Inl err, t1, disk w)
      | (Inr tty, t1) \<Rightarrow>
          (case prepare_shim w options ctr proc terminal of
             Inl err \<Rightarrow> (Inl err, t1, disk w)
           | Inr (path, args) \<Rightarrow>
               (let deferred = (case tty of None \<Rightarrow> [] | Some f \<Rightarrow> [ClosedFile f]);
                    (r, t2) = spawn w options (shim_cmd options path args tty)
                in case r of
                     Inl err \<Rightarrow> (Inl err, t1 @ t2 @ deferred, disk w)
                   | Inr pid \<Rightarrow>
                       (if pid_file options \<noteq> [] then
                          (let (perr, states) =
                                 createPidFile (pid_faults w) (disk w) (pid_file options) pid
                           in case perr of
                                Some err \<Rightarrow>
                                  (Inl err, t1 @ t2 @ [Killed pid] @ deferred, last states)
                              | None \<Rightarrow> (Inr pid, t1 @ t2 @ deferred, last states))
                        else (Inr pid, t1 @ t2 @ deferred, disk w)))))"

text \<open>The files a trace leaves open, and the children it leaves running.\<close>

fun still_open :: "launch_event list \<Rightarrow> nat list \<Rightarrow> nat list" where
  "still_open [] hs = hs"
| "still_open (OpenedFile f p # es) hs = still_open es (hs @ [f])"
| "still_open (OpenedPty m t # es) hs = still_open es (hs @ [m, t])"
| "still_open (ClosedFile f # es) hs = still_open es (remove1 f hs)"
| "still_open (e # es) hs = still_open es hs"

fun still_running :: "launch_event list \<Rightarrow> int list \<Rightarrow> int list" where
  "still_running [] ps = ps"
| "still_running (Started pid # es) ps = still_running es (ps @ [pid])"
| "still_running (Killed pid # es) ps = still_running es (remove1 pid ps)"
| "still_running (e # es) ps = still_running es ps"

definition uses_tty :: "runvOptions \<Rightarrow> bool" where
  "uses_tty options = (console options \<noteq> [] \<or> console_socket options \<noteq> [])"

subsection \<open>Stages of the launch\<close>

lemma still_open_append: "still_open (xs @ ys) hs = still_open ys (still_open xs hs)"
  by (induction xs hs rule: still_open.induct) auto

lemma still_running_append: "still_running (xs @ ys) ps = still_running ys (still_running xs ps)"
  by (induction xs ps rule: still_running.induct) auto

lemma attach_console_no_child:
  "still_running (snd (attach_console w options)) ps = ps"
  "Started pid \<notin> set (snd (attach_console w options))"
  "StartCmd c \<notin> set (snd (attach_console w options))"
  by (auto simp: attach_console_def split: sum.splits option.splits prod.splits)

lemma attach_console_tty:
  "attach_console w options = (Inr tty, t) \<Longrightarrow> (tty \<noteq> None) = uses_tty options"
  by (auto simp: attach_console_def uses_tty_def split: sum.splits option.splits prod.splits if_splits)

lemma attach_console_open:
  "attach_console w options = (Inr tty, t) \<Longrightarrow>
     still_open t [] = (case tty of None \<Rightarrow> [] | Some f \<Rightarrow> [f])"
  by (auto simp: attach_console_def split: sum.splits option.splits prod.splits if_splits)

lemma spawn_running:
  "spawn w options c = (r, t) \<Longrightarrow>
     still_running t ps = (case r of Inl err \<Rightarrow> ps | Inr pid \<Rightarrow> ps @ [pid])"
  by (auto simp: spawn_def Start_def nsSetRun_def split: option.splits sum.splits prod.splits)

lemma spawn_started:
  "spawn w options c = (r, t) \<Longrightarrow> Started pid \<in> set t \<Longrightarrow> r = Inr pid"
  by (auto simp: spawn_def Start_def nsSetRun_def split: option.splits sum.splits prod.splits)

lemma spawn_files: "spawn w options c = (r, t) \<Longrightarrow> still_open t hs = hs"
  by (auto simp: spawn_def Start_def nsSetRun_def split: option.splits sum.splits prod.splits)

lemma spawn_attrs:
  "spawn w options c = (r, t) \<Longrightarrow> StartCmd c' \<in> set t \<Longrightarrow>
     Setctty c' = Setctty c \<and> Setsid c' = Setsid c"
  by (auto simp: spawn_def Start_def nsSetRun_def split: option.splits sum.splits prod.splits)


text \<open>Every way \<open>createShim\<close> can go, by the stage that decides it.\<close>

lemma createShim_cases:
  assumes "createShim w options ctr proc terminal = (r, t, d)"
  obtains
    (console) err where "attach_console w options = (Inl err, t)" "r = Inl err"
  | (prepare) tty err where "attach_console w options = (Inr tty, t)"
      "prepare_shim w options ctr proc terminal = Inl err" "r = Inl err"
  | (start) tty t1 path args t2 err where "attach_console w options = (Inr tty, t1)"
      "prepare_shim w options ctr proc terminal = Inr (path, args)"
      "spawn w options (shim_cmd options path args tty) = (Inl err, t2)"
      "t = t1 @ t2 @ (case tty of None \<Rightarrow> [] | Some f \<Rightarrow> [ClosedFile f])" "r = Inl err"
  | (pidfile) tty t1 path args t2 pid err where "attach_console w options = (Inr tty, t1)"
      "prepare_shim w options ctr proc terminal = Inr (path, args)"
      "spawn w options (shim_cmd options path args tty) = (Inr pid, t2)"
      "pid_file options \<noteq> []"
      "fst (createPidFile (pid_faults w) (disk w) (pid_file options) pid) = Some err"
      "t = t1 @ t2 @ [Killed pid] @ (case tty of None \<Rightarrow> [] | Some f \<Rightarrow> [ClosedFile f])"
      "r = Inl err"
  | (success) tty t1 path args t2 pid where "attach_console w options = (Inr tty, t1)"
      "prepare_shim w options ctr proc terminal = Inr (path, args)"
      "spawn w options (shim_cmd options path args tty) = (Inr pid, t2)"
      "pid_file options \<noteq> [] \<longrightarrow>
         fst (createPidFile (pid_faults w) (disk w) (pid_file options) pid) = None"
      "t = t1 @ t2 @ (case tty of None \<Rightarrow> [] | Some f \<Rightarrow> [ClosedFile f])" "r = Inr pid"
  using assms unfolding createShim_def Let_def
  by (auto split: prod.splits sum.splits option.splits if_splits)


lemma deferred_close_running:
  "still_running (case tty of None \<Rightarrow> [] | Some f \<Rightarrow> [ClosedFile f]) ps = ps"
  by (cases tty) auto

lemma attach_console_running: "attach_console w options = (x, t) \<Longrightarrow> still_running t ps = ps"
  using attach_console_no_child(1) [of w options ps] by simp

subsection \<open>No orphaned child\<close>

text \<open>
  Claim C7. When \<open>createShim\<close> has started the child, a pid-file path is configured and
  writing the pid file fails, the error of the pid file is returned and the child has
  been killed: the kill is in the trace and no started child is left running. More
  generally no failing \<open>createShim\<close> leaves a child running, and a successful one leaves
  exactly the process it returns.
\<close>

theorem createShim_no_orphan:
  assumes "createShim w options ctr proc terminal = (r, t, d)"
  shows "(r = Inl err \<longrightarrow> still_running t [] = [])
       \<and> (Started pid \<in> set t \<and> pid_file options \<noteq> []
            \<and> fst (createPidFile (pid_faults w) (disk w) (pid_file options) pid) = Some e \<longrightarrow>
              r = Inl e \<and> Killed pid \<in> set t \<and> still_running t [] = [])
       \<and> (r = Inr pid \<longrightarrow> still_running t [] = [pid])"
  using assms
proof (cases rule: createShim_cases)
  case (console err)
  then show ?thesis
    using attach_console_no_child(2) [of pid w options]
    by (auto simp: attach_console_running)
next
  case (prepare tty err)
  then show ?thesis
    using attach_console_no_child(2) [of pid w options]
    by (auto simp: attach_console_running)
next
  case (start tty t1 path args t2 err)
  then show ?thesis
    using attach_console_no_child(2) [of pid w options]
    by (auto simp: still_running_append attach_console_running deferred_close_running
        dest: spawn_running spawn_started split: option.splits)
next
  case (pidfile tty t1 path args t2 pid' err')
  have "still_running t [] = []"
    using pidfile spawn_running [OF pidfile(3), of "[]"]
    by (simp add: still_running_append attach_console_running deferred_close_running)
  moreover have "Started pid \<in> set t \<longrightarrow> pid = pid'"
    using pidfile attach_console_no_child(2) [of pid w options]
    by (auto dest: spawn_started split: option.splits)
  ultimately show ?thesis
    using pidfile by auto
next
  case (success tty t1 path args t2 pid')
  have "still_running t [] = [pid']"
    using success spawn_running [OF success(3), of "[]"]
    by (simp add: still_running_append attach_console_running deferred_close_running)
  moreover have "Started pid \<in> set t \<longrightarrow> pid = pid'"
    using success attach_console_no_child(2) [of pid w options]
    by (auto dest: spawn_started split: option.splits)
  ultimately show ?thesis
    using success by auto
qed

subsection \<open>Session policy\<close>

text \<open>
  Claim C8. Whatever command \<open>createShim\<close> starts: when a tty is in use (a console device
  or a pty for the console socket) both \<open>Setctty\<close> and \<open>Setsid\<close> are set; without a tty
  \<open>Setctty\<close> is not set and \<open>Setsid\<close> is set if and only if the launch is not attached.
  So a detached child always gets a session of its own.
\<close>

theorem createShim_session_policy:
  assumes "createShim w options ctr proc terminal = (r, t, d)" and "StartCmd c \<in> set t"
  shows "Setctty c = uses_tty options
       \<and> Setsid c = (uses_tty options \<or> \<not> attach options)
       \<and> (uses_tty options \<longrightarrow> Setctty c \<and> Setsid c)
       \<and> (\<not> attach options \<longrightarrow> Setsid c)"
proof -
  have "\<exists>tty path args t1 t2 x. attach_console w options = (Inr tty, t1)
      \<and> spawn w options (shim_cmd options path args tty) = (x, t2) \<and> StartCmd c \<in> set t2"
    using assms(1)
  proof (cases rule: createShim_cases)
    case (console err)
    with assms(2) show ?thesis
      using attach_console_no_child(3) [of c w options] by simp
  next
    case (prepare tty err)
    with assms(2) show ?thesis
      using attach_console_no_child(3) [of c w options] by simp
  next
    case (start tty t1 path args t2 err)
    with assms(2) have "StartCmd c \<in> set t2"
      using attach_console_no_child(3) [of c w options] by (auto split: option.splits)
    with start show ?thesis by blast
  next
    case (pidfile tty t1 path args t2 pid err)
    with assms(2) have "StartCmd c \<in> set t2"
      using attach_console_no_child(3) [of c w options] by (auto split: option.splits)
    with pidfile show ?thesis by blast
  next
    case (success tty t1 path args t2 pid)
    with assms(2) have "StartCmd c \<in> set t2"
      using attach_console_no_child(3) [of c w options] by (auto split: option.splits)
    with success show ?thesis by blast
  qed
  then obtain tty path args t1 t2 x where a: "attach_console w options = (Inr tty, t1)"
    and s: "spawn w options (shim_cmd options path args tty) = (x, t2)" and c: "StartCmd c \<in> set t2"
    by blast
  have "Setctty c = (tty \<noteq> None) \<and> Setsid c = (tty \<noteq> None \<or> \<not> attach options)"
    using spawn_attrs [OF s c] by (simp add: shim_cmd_def)
  then show ?thesis
    using attach_console_tty [OF a] by auto
qed


lemma createShim_closes_after_prepare:
  assumes "createShim w options ctr proc terminal = (r, t, d)"
    and "attach_console w options = (Inr tty, t1)"
    and "prepare_shim w options ctr proc terminal = Inr pa"
  shows "still_open t [] = []"
  using assms(1)
proof (cases rule: createShim_cases)
  case (console err)
  with assms(2) show ?thesis by simp
next
  case (prepare tty err)
  with assms(3) show ?thesis by simp
next
  case (start tty' t1' path args t2 err)
  then show ?thesis
    using attach_console_open [OF start(1)] spawn_files [OF start(3)]
    by (auto simp: still_open_append split: option.splits)
next
  case (pidfile tty' t1' path args t2 pid err)
  then show ?thesis
    using attach_console_open [OF pidfile(1)] spawn_files [OF pidfile(3)]
    by (auto simp: still_open_append split: option.splits)
next
  case (success tty' t1' path args t2 pid)
  then show ?thesis
    using attach_console_open [OF success(1)] spawn_files [OF success(3)]
    by (auto simp: still_open_append split: option.splits)
qed

text \<open>A launch used in the examples below.\<close>

definition example_world :: launch_world where
  "example_world =
     \<lparr>open_console = Inr 5, pty_open = Inr (3, 4), sendtty_err = None,
      executable = Inr ''/usr/bin/runv'', argv0 = ''runv'', enter_netns_err = None,
      start_cmd = Inr 4242, pid_faults = no_faults,
      disk = \<lparr>files = Map.empty, handles = []\<rparr>\<rparr>"

definition example_options :: runvOptions where
  "example_options =
     \<lparr>console = [], console_socket = ''/run/console.sock'', pid_file = ''/run/c1.pid'',
      global_agent = ''hyper'', global_root = ''/run/runv'', global_log_dir = [],
      global_debug = False, withContainer = None, attach = True\<rparr>"

definition example_cmd :: cmd where
  "example_cmd =
     \<lparr>Path = ''/usr/bin/runv'',
      Args = [''runv'', ''--root'', ''/run/runv'', ''shim'', ''--container'', ''c1'',
              ''--process'', ''init'', ''--proxy-stdio'', ''--proxy-exit-code'',
              ''--proxy-signal'', ''--proxy-winsize''],
      WorkDir = ''/'', Setctty = True, Setsid = True, Cloneflags = 0x40000000,
      Stdin = FromFile 4, Stdout = FromFile 4, Stderr = FromFile 4\<rparr>"

lemma example_pid_file_taken:
  "createShim
     (example_world\<lparr>disk := \<lparr>files = [''/run/.c1.pid'' \<mapsto> ''17''], handles = []\<rparr>\<rparr>)
     example_options ''c1'' ''init'' True
   = (Inl ''file exists'',
      [OpenedPty 3 4, SendTty ''/run/console.sock'' 3, ClosedFile 3, StartCmd example_cmd,
       Started 4242, Killed 4242, ClosedFile 4],
      \<lparr>files = [''/run/.c1.pid'' \<mapsto> ''17''], handles = []\<rparr>)"
  by (simp add: createShim_def attach_console_def prepare_shim_def prepareRunvShim_def
      shim_cmd_def spawn_def Start_def example_world_def example_options_def example_cmd_def
      createPidFile_def tmpName_example OpenFile_excl_def CLONE_NEWNET_def Let_def)

theorem createShim_no_orphan_witness:
  "createShim
     (example_world\<lparr>disk := \<lparr>files = [''/run/.c1.pid'' \<mapsto> ''17''], handles = []\<rparr>\<rparr>)
     example_options ''c1'' ''init'' True
   = (Inl ''file exists'',
      [OpenedPty 3 4, SendTty ''/run/console.sock'' 3, ClosedFile 3, StartCmd example_cmd,
       Started 4242, Killed 4242, ClosedFile 4],
      \<lparr>files = [''/run/.c1.pid'' \<mapsto> ''17''], handles = []\<rparr>)
   \<and> still_running
        [OpenedPty 3 4, SendTty ''/run/console.sock'' 3, ClosedFile 3, StartCmd example_cmd,
         Started 4242, Killed 4242, ClosedFile 4] [] = []"
  using createShim_no_orphan [OF example_pid_file_taken, of "''file exists''" 4242 "''file exists''"]
    example_pid_file_taken
  by simp

lemma example_pid_file_free:
  "fst (createPidFile no_faults \<lparr>files = Map.empty, handles = []\<rparr> ''/run/c1.pid'' 4242) = None"
  by (rule createPidFile_success(1)) (simp_all add: tmpName_example)

lemma example_launch:
  "createShim example_world example_options ''c1'' ''init'' True
   = (Inr 4242,
      [OpenedPty 3 4, SendTty ''/run/console.sock'' 3, ClosedFile 3, StartCmd example_cmd,
       Started 4242, ClosedFile 4],
      last (snd (createPidFile no_faults \<lparr>files = Map.empty, handles = []\<rparr>
        ''/run/c1.pid'' 4242)))"
  using example_pid_file_free
  by (simp add: createShim_def attach_console_def prepare_shim_def prepareRunvShim_def
      shim_cmd_def spawn_def Start_def example_world_def example_options_def example_cmd_def
      CLONE_NEWNET_def Let_def case_prod_beta)

theorem createShim_session_policy_witness:
  "StartCmd example_cmd \<in> set (fst (snd (createShim example_world example_options ''c1'' ''init'' True)))
   \<and> uses_tty example_options \<and> attach example_options
   \<and> Setctty example_cmd \<and> Setsid example_cmd"
  using createShim_session_policy [OF example_launch, of example_cmd]
  by (simp add: example_launch) (simp add: example_options_def uses_tty_def)

subsection \<open>Console resources on failure\<close>

text \<open>
  Claim C9 says that every console resource already opened is released before
  \<open>createShim\<close> returns an error. The deferred close of line 244 does that for the returns
  below it (\<open>createShim_closes_after_prepare\<close>), but the returns of lines 209 and 224 come
  before it is registered. Here the console socket refuses the connection: the error is
  returned with both sides of the pty still open. And here the console device is open
  when the path of the executable cannot be found: the error is returned with the
  console still open.
\<close>

theorem createShim_console_left_open:
  "createShim (example_world\<lparr>sendtty_err := Some ''connection refused''\<rparr>) example_options
      ''c1'' ''init'' True
     = (Inl ''connection refused'', [OpenedPty 3 4, SendTty ''/run/console.sock'' 3],
        \<lparr>files = Map.empty, handles = []\<rparr>)
   \<and> still_open [OpenedPty 3 4, SendTty ''/run/console.sock'' 3] [] = [3, 4]
   \<and> createShim (example_world\<lparr>executable := Inl ''readlink /proc/self/exe: no such file''\<rparr>)
        (example_options\<lparr>console := ''/dev/pts/5''\<rparr>) ''c1'' ''init'' True
     = (Inl ''cannot find self executable path for runv: readlink /proc/self/exe: no such file'',
        [OpenedFile 5 ''/dev/pts/5''], \<lparr>files = Map.empty, handles = []\<rparr>)
   \<and> still_open [OpenedFile 5 ''/dev/pts/5''] [] = [5]"
  by (simp add: createShim_def attach_console_def prepare_shim_def prepareRunvShim_def
      example_world_def example_options_def)

section \<open>Forwarding signals\<close>


text \<open>
  An \<open>os.Signal\<close> is a \<open>syscall.Signal\<close>, a number, or a value of some other type that
  implements the interface, known by its name only.
\<close>

datatype os_signal = SyscallSignal int | OtherSignal string

text \<open>The numbers of the signals named in the source, as Linux defines them.\<close>

definition SIGPIPE :: int where "SIGPIPE = 13"
definition SIGCHLD :: int where "SIGCHLD = 17"
definition SIGWINCH :: int where "SIGWINCH = 28"

text \<open>
  A channel of signals as the runtime sees it: its capacity, the signals the process has
  asked to ignore, and the signals waiting in it.
\<close>

record signal_channel =
  capacity :: nat
  ignored :: "os_signal list"
  buffer :: "os_signal list"

text \<open>
  Lines 130 and 132: a channel of the given capacity to which the runtime relays every
  signal. Line 133: from then on the given signals are not relayed.
\<close>

definition signal_Notify :: "nat \<Rightarrow> signal_channel" where
  "signal_Notify n = \<lparr>capacity = n, ignored = [], buffer = []\<rparr>"

definition signal_Ignore :: "os_signal list \<Rightarrow> signal_channel \<Rightarrow> signal_channel" where
  "signal_Ignore sigs ch = ch\<lparr>ignored := ignored ch @ sigs\<rparr>"

text \<open>
  The runtime relays a signal without ever blocking: an ignored signal is not relayed,
  and a signal that finds the buffer full is dropped.
\<close>

definition deliver :: "signal_channel \<Rightarrow> os_signal \<Rightarrow> signal_channel" where
  "deliver ch s =
     (if s \<in> set (ignored ch) then ch
      else if length (buffer ch) < capacity ch then ch\<lparr>buffer := buffer ch @ [s]\<rparr>
      else ch)"

text \<open>
  The channel \<open>forwardAllSignals\<close> returns (lines 130 to 133 and 156), given the signals that
  arrive between the subscription and the call that ignores SIGCHLD and SIGPIPE.
\<close>

definition forwardAllSignals_channel :: "os_signal list \<Rightarrow> signal_channel" where
  "forwardAllSignals_channel early =
     signal_Ignore [SyscallSignal SIGCHLD, SyscallSignal SIGPIPE]
       (foldl deliver (signal_Notify 2048) early)"

text \<open>
  What the loop of lines 136 to 154 does for one signal it receives. A failure is
  written to standard error and to the log, and the loop goes on.
\<close>

datatype forward_event =
    SignalProcess string string int
  | UnknownSignalLogged os_signal
  | ForwardFailureLogged os_signal error

definition forward_one ::
  "(int \<Rightarrow> error option) \<Rightarrow> string \<Rightarrow> string \<Rightarrow> os_signal \<Rightarrow> forward_event list" where
  "forward_one agent ctr proc s =
     (if s = SyscallSignal SIGCHLD \<or> s = SyscallSignal SIGPIPE \<or> s = SyscallSignal SIGWINCH
      then []
      else (case s of
              OtherSignal name \<Rightarrow> [UnknownSignalLogged s]
            | SyscallSignal sysSig \<Rightarrow>
                (case agent sysSig of
                   None \<Rightarrow> [SignalProcess ctr proc sysSig]
                 | Some err \<Rightarrow> [SignalProcess ctr proc sysSig, ForwardFailureLogged s err])))"

fun forward_loop ::
  "(int \<Rightarrow> error option) \<Rightarrow> string \<Rightarrow> string \<Rightarrow> os_signal list \<Rightarrow> forward_event list" where
  "forward_loop agent ctr proc [] = []"
| "forward_loop agent ctr proc (s # ss) =
     forward_one agent ctr proc s @ forward_loop agent ctr proc ss"

text \<open>The signals a trace forwards, and the ones the loop is to forward.\<close>

fun forwarded :: "forward_event list \<Rightarrow> int list" where
  "forwarded [] = []"
| "forwarded (SignalProcess c p n # es) = n # forwarded es"
| "forwarded (e # es) = forwarded es"

fun forwardable :: "os_signal \<Rightarrow> int option" where
  "forwardable (SyscallSignal n) =
     (if n = SIGCHLD \<or> n = SIGPIPE \<or> n = SIGWINCH then None else Some n)"
| "forwardable (OtherSignal name) = None"

fun logged :: "forward_event list \<Rightarrow> forward_event list" where
  "logged [] = []"
| "logged (SignalProcess c p n # es) = logged es"
| "logged (e # es) = e # logged es"

text \<open>
  A run of the forwarder: signals arrive at the process and the loop receives from the
  channel, in any order. A receive on an empty channel waits: nothing changes.
\<close>

datatype signal_step = Arrives os_signal | Receives

fun run_channel ::
  "signal_step list \<Rightarrow> signal_channel \<times> os_signal list \<Rightarrow> signal_channel \<times> os_signal list" where
  "run_channel [] st = st"
| "run_channel (Arrives s # steps) (ch, got) = run_channel steps (deliver ch s, got)"
| "run_channel (Receives # steps) (ch, got) =
     (case buffer ch of
        [] \<Rightarrow> run_channel steps (ch, got)
      | s # rest \<Rightarrow> run_channel steps (ch\<lparr>buffer := rest\<rparr>, got @ [s]))"

fun arrivals :: "signal_step list \<Rightarrow> os_signal list" where
  "arrivals [] = []"
| "arrivals (Arrives s # steps) = s # arrivals steps"
| "arrivals (Receives # steps) = arrivals steps"

lemma forwarded_append: "forwarded (xs @ ys) = forwarded xs @ forwarded ys"
  by (induction xs rule: forwarded.induct) auto

lemma logged_append: "logged (xs @ ys) = logged xs @ logged ys"
  by (induction xs rule: logged.induct) auto

lemma forward_loop_append:
  "forward_loop agent c p (xs @ ys) = forward_loop agent c p xs @ forward_loop agent c p ys"
  by (induction xs) auto

lemma forwarded_one:
  "forwarded (forward_one agent c p s) = (case forwardable s of None \<Rightarrow> [] | Some n \<Rightarrow> [n])"
  by (cases s) (auto simp: forward_one_def split: option.splits)

lemma forwarded_loop:
  "forwarded (forward_loop agent c p ss) = List.map_filter forwardable ss"
  by (induction ss) (auto simp: forwarded_append forwarded_one List.map_filter_simps split: option.splits)

lemma signals_of_loop:
  "SignalProcess c' p' n \<in> set (forward_loop agent c p ss) \<Longrightarrow>
     c' = c \<and> p' = p \<and> SyscallSignal n \<in> set ss \<and> n \<noteq> SIGCHLD \<and> n \<noteq> SIGPIPE \<and> n \<noteq> SIGWINCH"
  by (induction ss) (auto simp: forward_one_def split: if_splits os_signal.splits option.splits)


fun failure_of :: "(int \<Rightarrow> error option) \<Rightarrow> os_signal \<Rightarrow> forward_event option" where
  "failure_of agent (OtherSignal name) = Some (UnknownSignalLogged (OtherSignal name))"
| "failure_of agent (SyscallSignal n) =
     (if n = SIGCHLD \<or> n = SIGPIPE \<or> n = SIGWINCH then None
      else map_option (ForwardFailureLogged (SyscallSignal n)) (agent n))"

lemma logged_one:
  "logged (forward_one agent c p s) = (case failure_of agent s of None \<Rightarrow> [] | Some e \<Rightarrow> [e])"
  by (cases s) (auto simp: forward_one_def split: option.splits)

lemma logged_loop:
  "logged (forward_loop agent c p ss) = List.map_filter (failure_of agent) ss"
  by (induction ss) (auto simp: logged_append logged_one List.map_filter_simps split: option.splits)

lemma deliver_fields: "capacity (deliver ch s) = capacity ch" "ignored (deliver ch s) = ignored ch"
  by (simp_all add: deliver_def)

lemma run_channel_fields:
  "capacity (fst (run_channel steps (ch, got))) = capacity ch
   \<and> ignored (fst (run_channel steps (ch, got))) = ignored ch"
proof (induction steps arbitrary: ch got)
  case Nil
  show ?case by simp
next
  case (Cons st steps)
  show ?case
  proof (cases st)
    case (Arrives s)
    then show ?thesis using Cons [of "deliver ch s" got] by (simp add: deliver_fields)
  next
    case Receives
    show ?thesis
    proof (cases "buffer ch")
      case Nil
      with Receives Cons [of ch got] show ?thesis by simp
    next
      case (Cons x rest)
      with Receives Cons.IH [of "ch\<lparr>buffer := rest\<rparr>" "got @ [x]"] show ?thesis by simp
    qed
  qed
qed

text \<open>The runs in which no signal is dropped: the buffer has room for every arrival.\<close>

lemma run_channel_fifo:
  assumes "length (buffer ch) + length (filter (\<lambda>s. s \<notin> set (ignored ch)) (arrivals steps))
             \<le> capacity ch"
  shows "snd (run_channel steps (ch, got)) @ buffer (fst (run_channel steps (ch, got)))
           = got @ buffer ch @ filter (\<lambda>s. s \<notin> set (ignored ch)) (arrivals steps)"
  using assms
proof (induction steps arbitrary: ch got)
  case Nil
  show ?case by simp
next
  case (Cons st steps)
  show ?case
  proof (cases st)
    case (Arrives s)
    show ?thesis
    proof (cases "s \<in> set (ignored ch)")
      case True
      with Arrives Cons.prems Cons.IH [of ch got] show ?thesis
        by (simp add: deliver_def)
    next
      case False
      with Arrives Cons.prems have room: "length (buffer ch) < capacity ch" by simp
      with False have d: "deliver ch s = ch\<lparr>buffer := buffer ch @ [s]\<rparr>"
        by (simp add: deliver_def)
      show ?thesis
        using Cons.IH [of "ch\<lparr>buffer := buffer ch @ [s]\<rparr>" got] Arrives Cons.prems False d
        by simp
    qed
  next
    case Receives
    show ?thesis
    proof (cases "buffer ch")
      case Nil
      with Receives Cons.prems Cons.IH [of ch got] show ?thesis by simp
    next
      case (Cons x rest)
      show ?thesis
        using Cons.IH [of "ch\<lparr>buffer := rest\<rparr>" "got @ [x]"] Receives Cons Cons.prems
        by simp
    qed
  qed
qed

text \<open>In every run the buffer keeps within its capacity.\<close>

lemma deliver_length:
  "length (buffer ch) \<le> capacity ch \<Longrightarrow> length (buffer (deliver ch s)) \<le> capacity ch"
  by (simp add: deliver_def)

lemma run_channel_length:
  assumes "length (buffer ch) \<le> capacity ch"
  shows "length (buffer (fst (run_channel steps (ch, got)))) \<le> capacity ch"
  using assms
proof (induction steps arbitrary: ch got)
  case Nil
  then show ?case by simp
next
  case (Cons st steps)
  show ?case
  proof (cases st)
    case (Arrives s)
    have "length (buffer (deliver ch s)) \<le> capacity (deliver ch s)"
      using Cons.prems by (simp add: deliver_length deliver_fields)
    then show ?thesis
      using Cons.IH [of "deliver ch s" got] Arrives by (simp add: deliver_fields)
  next
    case Receives
    show ?thesis
    proof (cases "buffer ch")
      case Nil
      with Receives Cons.prems Cons.IH [of ch got] show ?thesis by simp
    next
      case (Cons x rest)
      have "length (buffer (ch\<lparr>buffer := rest\<rparr>)) \<le> capacity (ch\<lparr>buffer := rest\<rparr>)"
        using Cons Cons.prems by simp
      then show ?thesis
        using Cons.IH [of "ch\<lparr>buffer := rest\<rparr>" "got @ [x]"] Receives Cons by simp
    qed
  qed
qed

text \<open>A signal that is ignored from the start of a run is never in the buffer or received.\<close>

lemma run_channel_clean:
  assumes "\<forall>s \<in> set (buffer ch) \<union> set got. s \<notin> set (ignored ch)"
  shows "\<forall>s \<in> set (buffer (fst (run_channel steps (ch, got))))
               \<union> set (snd (run_channel steps (ch, got))). s \<notin> set (ignored ch)"
  using assms
proof (induction steps arbitrary: ch got)
  case Nil
  then show ?case by simp
next
  case (Cons st steps)
  show ?case
  proof (cases st)
    case (Arrives s)
    have "\<forall>x \<in> set (buffer (deliver ch s)) \<union> set got. x \<notin> set (ignored (deliver ch s))"
      using Cons.prems by (auto simp: deliver_def)
    then show ?thesis
      using Cons.IH [of "deliver ch s" got] Arrives by (simp add: deliver_fields)
  next
    case Receives
    show ?thesis
    proof (cases "buffer ch")
      case Nil
      with Receives Cons.prems Cons.IH [of ch got] show ?thesis by simp
    next
      case (Cons x rest)
      have "\<forall>s \<in> set (buffer (ch\<lparr>buffer := rest\<rparr>)) \<union> set (got @ [x]).
          s \<notin> set (ignored (ch\<lparr>buffer := rest\<rparr>))"
        using Cons Cons.prems by auto
      then show ?thesis
        using Cons.IH [of "ch\<lparr>buffer := rest\<rparr>" "got @ [x]"] Receives Cons by simp
    qed
  qed
qed

text \<open>The signals that arrive before line 133 has run.\<close>

lemma foldl_deliver_fields:
  "capacity (foldl deliver ch xs) = capacity ch \<and> ignored (foldl deliver ch xs) = ignored ch"
  by (induction xs arbitrary: ch) (simp_all add: deliver_fields)

lemma foldl_deliver_length:
  "length (buffer ch) \<le> capacity ch \<Longrightarrow> length (buffer (foldl deliver ch xs)) \<le> capacity ch"
proof (induction xs arbitrary: ch)
  case Nil
  then show ?case by simp
next
  case (Cons x xs)
  have "length (buffer (deliver ch x)) \<le> capacity (deliver ch x)"
    using Cons.prems by (simp add: deliver_length deliver_fields)
  then show ?case
    using Cons.IH [of "deliver ch x"] by (simp add: deliver_fields)
qed

lemma foldl_deliver_all:
  "ignored ch = [] \<Longrightarrow> length (buffer ch) + length xs \<le> capacity ch \<Longrightarrow>
     buffer (foldl deliver ch xs) = buffer ch @ xs"
proof (induction xs arbitrary: ch)
  case Nil
  then show ?case by simp
next
  case (Cons x xs)
  have d: "deliver ch x = ch\<lparr>buffer := buffer ch @ [x]\<rparr>"
    using Cons.prems by (simp add: deliver_def)
  show ?case
    using Cons.IH [of "ch\<lparr>buffer := buffer ch @ [x]\<rparr>"] Cons.prems d by simp
qed

lemma forwardAllSignals_fields:
  "capacity (forwardAllSignals_channel early) = 2048"
  "ignored (forwardAllSignals_channel early) = [SyscallSignal SIGCHLD, SyscallSignal SIGPIPE]"
  "length (buffer (forwardAllSignals_channel early)) \<le> 2048"
  "length early \<le> 2048 \<Longrightarrow> buffer (forwardAllSignals_channel early) = early"
proof -
  let ?n = "signal_Notify 2048"
  have n: "capacity ?n = 2048" "ignored ?n = []" "buffer ?n = []"
    by (simp_all add: signal_Notify_def)
  show "capacity (forwardAllSignals_channel early) = 2048"
    using foldl_deliver_fields [of ?n early] n
    by (simp add: forwardAllSignals_channel_def signal_Ignore_def)
  show "ignored (forwardAllSignals_channel early) = [SyscallSignal SIGCHLD, SyscallSignal SIGPIPE]"
    using foldl_deliver_fields [of ?n early] n
    by (simp add: forwardAllSignals_channel_def signal_Ignore_def)
  show "length (buffer (forwardAllSignals_channel early)) \<le> 2048"
    using foldl_deliver_length [of ?n early] n
    by (simp add: forwardAllSignals_channel_def signal_Ignore_def)
  show "buffer (forwardAllSignals_channel early) = early" if "length early \<le> 2048"
    using foldl_deliver_all [of ?n early] n that
    by (simp add: forwardAllSignals_channel_def signal_Ignore_def)
qed

lemma map_filter_without:
  "\<forall>s \<in> set ign. f s = None \<Longrightarrow>
     List.map_filter f (filter (\<lambda>s. s \<notin> set ign) xs) = List.map_filter f xs"
  by (induction xs) (auto simp: List.map_filter_simps split: option.splits)

lemma map_filter_append: "List.map_filter f (xs @ ys) = List.map_filter f xs @ List.map_filter f ys"
  by (simp add: List.map_filter_def)

lemma forwardable_not_ignored:
  "List.map_filter forwardable
     (filter (\<lambda>s. s \<notin> set [SyscallSignal SIGCHLD, SyscallSignal SIGPIPE]) xs)
   = List.map_filter forwardable xs"
  by (rule map_filter_without) simp

text \<open>
  Claim C2. The channel has room for 2048 signals and never holds more. In every state
  the channel reaches once \<open>forwardAllSignals\<close> has returned, a SIGCHLD or a SIGPIPE that
  arrives does not enter the buffer; when none arrived before the call that ignores
  them, neither is ever in the buffer or received from it. For every sequence of signals
  the loop receives: it never forwards SIGCHLD, SIGPIPE or SIGWINCH; the signals it
  forwards are exactly the other \<open>syscall.Signal\<close> values it received, each once and in the
  order received, as numbers; a signal that cannot be translated and a forward that
  fails are logged, one entry for each; and the loop treats what it receives afterwards
  as it would have without the failure. When no more than 2048 signals arrive, none is
  dropped: once the loop has received them all it has forwarded exactly the signals to
  forward among the arrivals, in the order of their arrival.
\<close>

theorem signal_forwarder:
  assumes "run_channel steps (forwardAllSignals_channel early, []) = (ch, got)"
  shows "capacity (forwardAllSignals_channel early) = 2048
       \<and> length (buffer ch) \<le> 2048
       \<and> deliver ch (SyscallSignal SIGCHLD) = ch
       \<and> deliver ch (SyscallSignal SIGPIPE) = ch
       \<and> (early = [] \<longrightarrow>
            SyscallSignal SIGCHLD \<notin> set (buffer ch) \<union> set got
          \<and> SyscallSignal SIGPIPE \<notin> set (buffer ch) \<union> set got)
       \<and> (\<forall>n. SignalProcess c p n \<in> set (forward_loop agent c p ss) \<longrightarrow>
              n \<noteq> SIGCHLD \<and> n \<noteq> SIGPIPE \<and> n \<noteq> SIGWINCH)
       \<and> forwarded (forward_loop agent c p ss) = List.map_filter forwardable ss
       \<and> logged (forward_loop agent c p ss) = List.map_filter (failure_of agent) ss
       \<and> forward_loop agent c p (ss @ later)
            = forward_loop agent c p ss @ forward_loop agent c p later
       \<and> (length early + length (arrivals steps) \<le> 2048 \<longrightarrow>
            forwarded (forward_loop agent c p (got @ buffer ch))
              = List.map_filter forwardable (early @ arrivals steps))"
proof -
  let ?init = "forwardAllSignals_channel early"
  let ?ign = "[SyscallSignal SIGCHLD, SyscallSignal SIGPIPE]"
  have ch: "ch = fst (run_channel steps (?init, []))"
    and got: "got = snd (run_channel steps (?init, []))"
    using assms by simp_all
  have cap: "capacity ?init = 2048" and ign: "ignored ?init = ?ign"
    and len0: "length (buffer ?init) \<le> 2048"
    by (rule forwardAllSignals_fields)+
  have fields: "capacity ch = 2048" "ignored ch = ?ign"
    using run_channel_fields [of steps ?init "[]"] cap ign ch by simp_all
  have len: "length (buffer ch) \<le> 2048"
    using run_channel_length [of ?init steps "[]"] len0 cap ch by simp
  have ignored_stay_out: "deliver ch (SyscallSignal SIGCHLD) = ch"
      "deliver ch (SyscallSignal SIGPIPE) = ch"
    using fields by (simp_all add: deliver_def)
  have clean: "early = [] \<longrightarrow>
      SyscallSignal SIGCHLD \<notin> set (buffer ch) \<union> set got
      \<and> SyscallSignal SIGPIPE \<notin> set (buffer ch) \<union> set got"
  proof
    assume "early = []"
    then have "buffer ?init = []"
      using forwardAllSignals_fields(4) [of early] by simp
    then have "\<forall>s \<in> set (buffer ?init) \<union> set []. s \<notin> set (ignored ?init)"
      by simp
    then have "\<forall>s \<in> set (buffer ch) \<union> set got. s \<notin> set (ignored ?init)"
      unfolding ch got by (rule run_channel_clean)
    then show "SyscallSignal SIGCHLD \<notin> set (buffer ch) \<union> set got
        \<and> SyscallSignal SIGPIPE \<notin> set (buffer ch) \<union> set got"
      using ign by auto
  qed
  have fifo: "length early + length (arrivals steps) \<le> 2048 \<longrightarrow>
      forwarded (forward_loop agent c p (got @ buffer ch))
        = List.map_filter forwardable (early @ arrivals steps)"
  proof
    assume le: "length early + length (arrivals steps) \<le> 2048"
    then have b0: "buffer ?init = early"
      using forwardAllSignals_fields(4) [of early] by simp
    have "length (filter (\<lambda>s. s \<notin> set (ignored ?init)) (arrivals steps))
        \<le> length (arrivals steps)"
      by (rule length_filter_le)
    moreover have "length (buffer ?init) = length early"
      using b0 by simp
    ultimately have "length (buffer ?init)
        + length (filter (\<lambda>s. s \<notin> set (ignored ?init)) (arrivals steps)) \<le> capacity ?init"
      using le cap by linarith
    then have "snd (run_channel steps (?init, [])) @ buffer (fst (run_channel steps (?init, [])))
        = [] @ buffer ?init @ filter (\<lambda>s. s \<notin> set (ignored ?init)) (arrivals steps)"
      by (rule run_channel_fifo)
    then have "got @ buffer ch = early @ filter (\<lambda>s. s \<notin> set ?ign) (arrivals steps)"
      using ch got b0 ign by simp
    then show "forwarded (forward_loop agent c p (got @ buffer ch))
        = List.map_filter forwardable (early @ arrivals steps)"
      by (simp only: forwarded_loop map_filter_append forwardable_not_ignored)
  qed
  have sig: "\<forall>n. SignalProcess c p n \<in> set (forward_loop agent c p ss) \<longrightarrow>
      n \<noteq> SIGCHLD \<and> n \<noteq> SIGPIPE \<and> n \<noteq> SIGWINCH"
    using signals_of_loop by blast
  have loop: "forwarded (forward_loop agent c p ss) = List.map_filter forwardable ss"
      "logged (forward_loop agent c p ss) = List.map_filter (failure_of agent) ss"
      "forward_loop agent c p (ss @ later)
         = forward_loop agent c p ss @ forward_loop agent c p later"
    by (simp_all add: forwarded_loop logged_loop forward_loop_append)
  show ?thesis
    by (intro conjI) (fact cap len ignored_stay_out clean sig loop fifo)+
qed

definition example_agent :: "int \<Rightarrow> error option" where
  "example_agent n = (if n = 15 then Some ''no such process'' else None)"

lemma example_signals:
  "run_channel
     [Arrives (SyscallSignal 2), Arrives (SyscallSignal SIGCHLD), Receives,
      Arrives (SyscallSignal SIGWINCH), Arrives (SyscallSignal 15), Arrives (SyscallSignal 2),
      Receives, Receives, Receives, Receives]
     (forwardAllSignals_channel [SyscallSignal SIGCHLD], [])
   = (\<lparr>capacity = 2048, ignored = [SyscallSignal SIGCHLD, SyscallSignal SIGPIPE], buffer = []\<rparr>,
      [SyscallSignal SIGCHLD, SyscallSignal 2, SyscallSignal SIGWINCH, SyscallSignal 15,
       SyscallSignal 2])"
  by (simp add: forwardAllSignals_channel_def signal_Notify_def signal_Ignore_def deliver_def
      SIGCHLD_def SIGPIPE_def SIGWINCH_def)

theorem signal_forwarder_witness:
  "run_channel
     [Arrives (SyscallSignal 2), Arrives (SyscallSignal SIGCHLD), Receives,
      Arrives (SyscallSignal SIGWINCH), Arrives (SyscallSignal 15), Arrives (SyscallSignal 2),
      Receives, Receives, Receives, Receives]
     (forwardAllSignals_channel [SyscallSignal SIGCHLD], [])
   = (\<lparr>capacity = 2048, ignored = [SyscallSignal SIGCHLD, SyscallSignal SIGPIPE], buffer = []\<rparr>,
      [SyscallSignal SIGCHLD, SyscallSignal 2, SyscallSignal SIGWINCH, SyscallSignal 15,
       SyscallSignal 2])
   \<and> forward_loop example_agent ''c1'' ''init''
        [SyscallSignal SIGCHLD, SyscallSignal 2, SyscallSignal SIGWINCH, SyscallSignal 15,
         SyscallSignal 2]
      = [SignalProcess ''c1'' ''init'' 2, SignalProcess ''c1'' ''init'' 15,
         ForwardFailureLogged (SyscallSignal 15) ''no such process'',
         SignalProcess ''c1'' ''init'' 2]
   \<and> forwarded (forward_loop example_agent ''c1'' ''init''
        [SyscallSignal SIGCHLD, SyscallSignal 2, SyscallSignal SIGWINCH, SyscallSignal 15,
         SyscallSignal 2]) = [2, 15, 2]"
proof -
  let ?got = "[SyscallSignal SIGCHLD, SyscallSignal 2, SyscallSignal SIGWINCH, SyscallSignal 15,
    SyscallSignal 2]"
  have loop: "forward_loop example_agent ''c1'' ''init'' ?got
      = [SignalProcess ''c1'' ''init'' 2, SignalProcess ''c1'' ''init'' 15,
         ForwardFailureLogged (SyscallSignal 15) ''no such process'',
         SignalProcess ''c1'' ''init'' 2]"
    by (simp add: forward_one_def example_agent_def SIGCHLD_def SIGPIPE_def SIGWINCH_def)
  note t = signal_forwarder [OF example_signals, where agent = example_agent and c = "''c1''"
      and p = "''init''" and ss = ?got and later = "[]"]
  have "forwarded (forward_loop example_agent ''c1'' ''init'' ?got)
      = List.map_filter forwardable ?got"
    by (rule t [THEN conjunct2, THEN conjunct2, THEN conjunct2, THEN conjunct2, THEN conjunct2,
          THEN conjunct2, THEN conjunct1])
  then have "forwarded (forward_loop example_agent ''c1'' ''init'' ?got) = [2, 15, 2]"
    by (simp add: List.map_filter_simps SIGCHLD_def SIGPIPE_def SIGWINCH_def)
  with example_signals loop show ?thesis by (intro conjI)
qed

section \<open>The stdio proxy\<close>

text \<open>
  The three goroutines of \<open>proxyStdio\<close> (lines 110 to 126) and the owner, which had
  \<open>wg.Wait()\<close> deferred at line 72. Each is at one of its statements.
\<close>

datatype stdin_pc =
    StdinCopy
  | StdinClose "error option"
  | StdinLog "error option" "error option"
  | StdinDone

datatype output_pc =
    OutCopy
  | OutLog "error option"
  | OutWgDone
  | OutFinished

datatype owner_pc = OwnerRunning | OwnerWaiting | OwnerReleased

datatype proxy_event =
    CloseStdin string string
  | LoggedStdin "error option" "error option"
  | LoggedStdout "error option"
  | LoggedStderr "error option"

record proxy_state =
  target :: "string \<times> string"
  stdin_loop :: stdin_pc
  stdout_loop :: output_pc
  stderr_loop :: output_pc
  wg :: int
  owner :: owner_pc
  events :: "proxy_event list"

text \<open>
  \<open>proxyStdio\<close> (lines 105 to 127): the counter of the wait group is 2 and the three
  goroutines are about to copy.
\<close>

definition proxyStdio :: "string \<Rightarrow> string \<Rightarrow> proxy_state" where
  "proxyStdio ctr proc =
     \<lparr>target = (ctr, proc), stdin_loop = StdinCopy, stdout_loop = OutCopy,
      stderr_loop = OutCopy, wg = 2, owner = OwnerRunning, events = []\<rparr>"

text \<open>
  What can happen next: a copy returns (with nil at the end of its input, or with an
  error), a goroutine runs its next statement, the owner goes on. A step that cannot
  happen in a state leaves it as it is.
\<close>

datatype proxy_step =
    StdinCopyReturns "error option"
  | StdinNext
  | StdoutCopyReturns "error option"
  | StdoutNext
  | StderrCopyReturns "error option"
  | StderrNext
  | OwnerNext

text \<open>One goroutine that copies an output: lines 117 to 119, and 123 to 125.\<close>

fun output_next ::
  "(error option \<Rightarrow> proxy_event) \<Rightarrow> output_pc \<Rightarrow> output_pc \<times> proxy_event list \<times> int" where
  "output_next log_event (OutLog e) = (OutWgDone, [log_event e], 0)"
| "output_next log_event OutWgDone = (OutFinished, [], - 1)"
| "output_next log_event pc = (pc, [], 0)"

text \<open>The answer of the agent to \<open>CloseStdin\<close> is a parameter of the run.\<close>

fun proxy_exec :: "error option \<Rightarrow> proxy_step \<Rightarrow> proxy_state \<Rightarrow> proxy_state" where
  "proxy_exec answer (StdinCopyReturns err1) s =
     (if stdin_loop s = StdinCopy then s\<lparr>stdin_loop := StdinClose err1\<rparr> else s)"
| "proxy_exec answer StdinNext s =
     (case stdin_loop s of
        StdinClose err1 \<Rightarrow>
          s\<lparr>stdin_loop := StdinLog err1 answer,
            events := events s @ [CloseStdin (fst (target s)) (snd (target s))]\<rparr>
      | StdinLog err1 err2 \<Rightarrow>
          s\<lparr>stdin_loop := StdinDone, events := events s @ [LoggedStdin err1 err2]\<rparr>
      | _ \<Rightarrow> s)"
| "proxy_exec answer (StdoutCopyReturns err) s =
     (if stdout_loop s = OutCopy then s\<lparr>stdout_loop := OutLog err\<rparr> else s)"
| "proxy_exec answer StdoutNext s =
     (let (pc, es, d) = output_next LoggedStdout (stdout_loop s)
      in s\<lparr>stdout_loop := pc, events := events s @ es, wg := wg s + d\<rparr>)"
| "proxy_exec answer (StderrCopyReturns err) s =
     (if stderr_loop s = OutCopy then s\<lparr>stderr_loop := OutLog err\<rparr> else s)"
| "proxy_exec answer StderrNext s =
     (let (pc, es, d) = output_next LoggedStderr (stderr_loop s)
      in s\<lparr>stderr_loop := pc, events := events s @ es, wg := wg s + d\<rparr>)"
| "proxy_exec answer OwnerNext s =
     (case owner s of
        OwnerRunning \<Rightarrow> s\<lparr>owner := OwnerWaiting\<rparr>
      | OwnerWaiting \<Rightarrow> (if wg s = 0 then s\<lparr>owner := OwnerReleased\<rparr> else s)
      | OwnerReleased \<Rightarrow> s)"

fun proxy_run :: "error option \<Rightarrow> proxy_step list \<Rightarrow> proxy_state \<Rightarrow> proxy_state" where
  "proxy_run answer [] s = s"
| "proxy_run answer (st # steps) s = proxy_run answer steps (proxy_exec answer st s)"

text \<open>The notifications sent to the agent so far.\<close>

definition close_notifications :: "proxy_state \<Rightarrow> proxy_event list" where
  "close_notifications s = filter (\<lambda>e. case e of CloseStdin c p \<Rightarrow> True | _ \<Rightarrow> False) (events s)"

fun stdin_step :: "proxy_step \<Rightarrow> bool" where
  "stdin_step (StdinCopyReturns e) = True"
| "stdin_step StdinNext = True"
| "stdin_step st = False"

fun stdin_returned :: "stdin_pc \<Rightarrow> bool" where
  "stdin_returned StdinCopy = False"
| "stdin_returned pc = True"

fun stdin_closed :: "stdin_pc \<Rightarrow> bool" where
  "stdin_closed (StdinLog e1 e2) = True"
| "stdin_closed StdinDone = True"
| "stdin_closed pc = False"

definition finished_outputs :: "proxy_state \<Rightarrow> nat" where
  "finished_outputs s =
     (if stdout_loop s = OutFinished then 1 else 0) + (if stderr_loop s = OutFinished then 1 else 0)"

text \<open>What holds in every state the proxy can reach.\<close>

definition proxy_inv :: "proxy_state \<Rightarrow> bool" where
  "proxy_inv s =
     (close_notifications s
        = (if stdin_closed (stdin_loop s) then [CloseStdin (fst (target s)) (snd (target s))] else [])
      \<and> wg s = 2 - int (finished_outputs s)
      \<and> (owner s = OwnerReleased \<longrightarrow> finished_outputs s = 2))"

lemma proxy_inv_init: "proxy_inv (proxyStdio ctr proc)"
  by (simp add: proxy_inv_def proxyStdio_def close_notifications_def finished_outputs_def)

lemma proxy_inv_exec: "proxy_inv s \<Longrightarrow> proxy_inv (proxy_exec answer st s)"
  by (cases st; cases "stdin_loop s"; cases "stdout_loop s"; cases "stderr_loop s"; cases "owner s")
     (auto simp: proxy_inv_def close_notifications_def finished_outputs_def)

lemma proxy_inv_run: "proxy_inv s \<Longrightarrow> proxy_inv (proxy_run answer steps s)"
  by (induction steps arbitrary: s) (auto simp: proxy_inv_exec)


lemma proxy_run_append:
  "proxy_run answer (xs @ ys) s = proxy_run answer ys (proxy_run answer xs s)"
  by (induction xs arbitrary: s) auto

lemma target_exec: "target (proxy_exec answer st s) = target s"
  by (cases st) (simp_all split: stdin_pc.splits owner_pc.splits prod.splits)

lemma target_run: "target (proxy_run answer steps s) = target s"
  by (induction steps arbitrary: s) (auto simp: target_exec)

text \<open>The stdin goroutine and the rest do not touch each other's state.\<close>

definition stdin_view :: "proxy_state \<Rightarrow> stdin_pc \<times> proxy_event list \<times> string \<times> string" where
  "stdin_view s = (stdin_loop s, close_notifications s, target s)"

definition owner_view :: "proxy_state \<Rightarrow> output_pc \<times> output_pc \<times> int \<times> owner_pc" where
  "owner_view s = (stdout_loop s, stderr_loop s, wg s, owner s)"

lemma stdin_view_other: "\<not> stdin_step st \<Longrightarrow> stdin_view (proxy_exec answer st s) = stdin_view s"
  by (cases st; cases "stdout_loop s"; cases "stderr_loop s"; cases "owner s")
     (auto simp: stdin_view_def close_notifications_def)

lemma stdin_view_own:
  assumes "stdin_step st" and "stdin_view s = stdin_view s'"
  shows "stdin_view (proxy_exec answer st s) = stdin_view (proxy_exec answer st s')"
proof -
  from assms(2) have eq: "stdin_loop s' = stdin_loop s" "close_notifications s' = close_notifications s"
      "target s' = target s"
    by (simp_all add: stdin_view_def)
  show ?thesis
  proof (cases "stdin_loop s")
    case StdinCopy
    with assms(1) eq show ?thesis
      by (cases st) (simp_all add: stdin_view_def close_notifications_def)
  next
    case (StdinClose e)
    with assms(1) eq show ?thesis
      by (cases st) (simp_all add: stdin_view_def close_notifications_def)
  next
    case (StdinLog e1 e2)
    with assms(1) eq show ?thesis
      by (cases st) (simp_all add: stdin_view_def close_notifications_def)
  next
    case StdinDone
    with assms(1) eq show ?thesis
      by (cases st) (simp_all add: stdin_view_def close_notifications_def)
  qed
qed

lemma stdin_view_run:
  "stdin_view s = stdin_view s' \<Longrightarrow>
     stdin_view (proxy_run answer steps s) = stdin_view (proxy_run answer (filter stdin_step steps) s')"
proof (induction steps arbitrary: s s')
  case Nil
  then show ?case by simp
next
  case (Cons st steps)
  show ?case
  proof (cases "stdin_step st")
    case True
    have "stdin_view (proxy_exec answer st s) = stdin_view (proxy_exec answer st s')"
      using True Cons.prems by (rule stdin_view_own)
    from Cons.IH [OF this] True show ?thesis by simp
  next
    case False
    with Cons.prems have "stdin_view (proxy_exec answer st s) = stdin_view s'"
      by (simp add: stdin_view_other)
    from Cons.IH [OF this] False show ?thesis by simp
  qed
qed

lemma owner_view_stdin: "stdin_step st \<Longrightarrow> owner_view (proxy_exec answer st s) = owner_view s"
  by (cases st; cases "stdin_loop s") (auto simp: owner_view_def)

lemma owner_view_own:
  assumes "\<not> stdin_step st" and "owner_view s = owner_view s'"
  shows "owner_view (proxy_exec answer st s) = owner_view (proxy_exec answer st s')"
proof -
  from assms(2) have eq: "stdout_loop s' = stdout_loop s" "stderr_loop s' = stderr_loop s"
      "wg s' = wg s" "owner s' = owner s"
    by (simp_all add: owner_view_def)
  show ?thesis
  proof (cases st)
    case (StdinCopyReturns e)
    with assms(1) show ?thesis by simp
  next
    case StdinNext
    with assms(1) show ?thesis by simp
  next
    case (StdoutCopyReturns e)
    with eq show ?thesis by (simp add: owner_view_def)
  next
    case StdoutNext
    with eq show ?thesis by (simp add: owner_view_def split: prod.splits)
  next
    case (StderrCopyReturns e)
    with eq show ?thesis by (simp add: owner_view_def)
  next
    case StderrNext
    with eq show ?thesis by (simp add: owner_view_def split: prod.splits)
  next
    case OwnerNext
    with eq show ?thesis by (cases "owner s") (simp_all add: owner_view_def)
  qed
qed

lemma owner_view_run:
  "owner_view s = owner_view s' \<Longrightarrow>
     owner_view (proxy_run answer steps s)
       = owner_view (proxy_run answer (filter (\<lambda>st. \<not> stdin_step st) steps) s')"
proof (induction steps arbitrary: s s')
  case Nil
  then show ?case by simp
next
  case (Cons st steps)
  show ?case
  proof (cases "stdin_step st")
    case True
    with Cons.prems have "owner_view (proxy_exec answer st s) = owner_view s'"
      by (simp add: owner_view_stdin)
    from Cons.IH [OF this] True show ?thesis by simp
  next
    case False
    have "owner_view (proxy_exec answer st s) = owner_view (proxy_exec answer st s')"
      using False Cons.prems by (rule owner_view_own)
    from Cons.IH [OF this] False show ?thesis by simp
  qed
qed

text \<open>Once the copy of stdin has returned, the goroutine's next statement is the close.\<close>

lemma stdin_loop_other: "\<not> stdin_step st \<Longrightarrow> stdin_loop (proxy_exec answer st s) = stdin_loop s"
  using stdin_view_other [of st answer s] by (simp add: stdin_view_def)

lemma stdin_returned_exec:
  assumes "stdin_returned (stdin_loop s)"
  shows "stdin_returned (stdin_loop (proxy_exec answer st s))"
proof (cases "stdin_step st")
  case True
  then show ?thesis
    using assms by (cases st; cases "stdin_loop s") simp_all
next
  case False
  then show ?thesis
    using assms by (simp add: stdin_loop_other)
qed

lemma stdin_closed_exec:
  assumes "stdin_closed (stdin_loop s)"
  shows "stdin_closed (stdin_loop (proxy_exec answer st s))"
proof (cases "stdin_step st")
  case True
  then show ?thesis
    using assms by (cases st; cases "stdin_loop s") simp_all
next
  case False
  then show ?thesis
    using assms by (simp add: stdin_loop_other)
qed

lemma stdin_closed_run:
  "stdin_closed (stdin_loop s) \<Longrightarrow> stdin_closed (stdin_loop (proxy_run answer steps s))"
  by (induction steps arbitrary: s) (auto simp: stdin_closed_exec)

lemma stdin_next_closes:
  "stdin_returned (stdin_loop s) \<Longrightarrow> stdin_closed (stdin_loop (proxy_exec answer StdinNext s))"
  by (cases "stdin_loop s") auto

lemma stdin_closed_after_next:
  "stdin_returned (stdin_loop s) \<Longrightarrow> StdinNext \<in> set steps \<Longrightarrow>
     stdin_closed (stdin_loop (proxy_run answer steps s))"
proof (induction steps arbitrary: s)
  case Nil
  then show ?case by simp
next
  case (Cons st steps)
  show ?case
  proof (cases "st = StdinNext")
    case True
    from Cons.prems(1) have "stdin_closed (stdin_loop (proxy_exec answer StdinNext s))"
      by (rule stdin_next_closes)
    then have "stdin_closed (stdin_loop (proxy_run answer steps (proxy_exec answer StdinNext s)))"
      by (rule stdin_closed_run)
    with True show ?thesis
      by (simp only: proxy_run.simps)
  next
    case False
    with Cons.prems have "StdinNext \<in> set steps" by simp
    moreover have "stdin_returned (stdin_loop (proxy_exec answer st s))"
      using Cons.prems(1) by (rule stdin_returned_exec)
    ultimately show ?thesis
      using Cons.IH by simp
  qed
qed

lemma stdin_copy_returns:
  "stdin_returned (stdin_loop (proxy_exec answer (StdinCopyReturns err1) s))"
  by (cases "stdin_loop s") auto


lemma proxy_inv_reached: "proxy_inv (proxy_run answer steps (proxyStdio ctr proc))"
  by (rule proxy_inv_run) (rule proxy_inv_init)

lemma reached_notifications:
  "close_notifications (proxy_run answer steps (proxyStdio ctr proc))
     = (if stdin_closed (stdin_loop (proxy_run answer steps (proxyStdio ctr proc)))
        then [CloseStdin ctr proc] else [])"
  using proxy_inv_reached [of answer steps ctr proc]
  by (simp add: proxy_inv_def target_run) (simp add: proxyStdio_def)

lemma finished_outputs_two:
  "(finished_outputs s = 2) = (stdout_loop s = OutFinished \<and> stderr_loop s = OutFinished)"
  by (simp add: finished_outputs_def)

subsection \<open>Which loops are awaited\<close>

text \<open>
  Claim C3. In every state \<open>s\<close> the proxy reaches from \<open>proxyStdio\<close>, under any
  interleaving of its goroutines: the agent has been sent one close-stdin notification
  if the stdin goroutine is past its call, and none otherwise, so never more than one;
  when the copy of stdin has returned at the end of the local input, the goroutine's next
  statement sends that one notification; the state of the stdin goroutine and the
  notifications are the same as in the run of the stdin steps alone, whatever the output
  loops have done. The counter of the wait group is 2 less the output loops that have
  finished; the owner is released from its wait only when the stdout and the stderr loop
  have both finished, and as soon as they have; and the owner's state is the same as
  in the run without the stdin steps: its wait never depends on the stdin loop.
\<close>

theorem stdio_proxy_asymmetry:
  assumes "s = proxy_run answer steps (proxyStdio ctr proc)"
  shows "close_notifications s = (if stdin_closed (stdin_loop s) then [CloseStdin ctr proc] else [])
       \<and> (stdin_loop s = StdinClose None \<longrightarrow>
            close_notifications (proxy_exec answer StdinNext s) = [CloseStdin ctr proc])
       \<and> stdin_loop s = stdin_loop (proxy_run answer (filter stdin_step steps) (proxyStdio ctr proc))
       \<and> close_notifications s
            = close_notifications (proxy_run answer (filter stdin_step steps) (proxyStdio ctr proc))
       \<and> wg s = 2 - int (finished_outputs s)
       \<and> (owner s = OwnerReleased \<longrightarrow> stdout_loop s = OutFinished \<and> stderr_loop s = OutFinished)
       \<and> (owner s = OwnerWaiting \<longrightarrow>
            owner (proxy_exec answer OwnerNext s)
              = (if stdout_loop s = OutFinished \<and> stderr_loop s = OutFinished
                 then OwnerReleased else OwnerWaiting))
       \<and> owner s
            = owner (proxy_run answer (filter (\<lambda>st. \<not> stdin_step st) steps) (proxyStdio ctr proc))"
proof -
  let ?init = "proxyStdio ctr proc"
  have inv: "proxy_inv s"
    unfolding assms by (rule proxy_inv_reached)
  have n: "close_notifications s = (if stdin_closed (stdin_loop s) then [CloseStdin ctr proc] else [])"
    unfolding assms by (rule reached_notifications)
  have next_closes: "stdin_loop s = StdinClose None \<longrightarrow>
      close_notifications (proxy_exec answer StdinNext s) = [CloseStdin ctr proc]"
  proof
    assume c: "stdin_loop s = StdinClose None"
    have "proxy_exec answer StdinNext s = proxy_run answer (steps @ [StdinNext]) ?init"
      unfolding assms by (simp add: proxy_run_append)
    then have "close_notifications (proxy_exec answer StdinNext s)
        = (if stdin_closed (stdin_loop (proxy_exec answer StdinNext s)) then [CloseStdin ctr proc] else [])"
      using reached_notifications [of answer "steps @ [StdinNext]" ctr proc] by simp
    moreover have "stdin_closed (stdin_loop (proxy_exec answer StdinNext s))"
      using c by (simp add: stdin_next_closes)
    ultimately show "close_notifications (proxy_exec answer StdinNext s) = [CloseStdin ctr proc]"
      by simp
  qed
  have sv: "stdin_view s = stdin_view (proxy_run answer (filter stdin_step steps) ?init)"
    unfolding assms by (rule stdin_view_run) simp
  have ov: "owner_view s
      = owner_view (proxy_run answer (filter (\<lambda>st. \<not> stdin_step st) steps) ?init)"
    unfolding assms by (rule owner_view_run) simp
  have w: "wg s = 2 - int (finished_outputs s)"
    and rel: "owner s = OwnerReleased \<longrightarrow> finished_outputs s = 2"
    using inv by (simp_all add: proxy_inv_def)
  have wait: "owner s = OwnerWaiting \<longrightarrow>
      owner (proxy_exec answer OwnerNext s)
        = (if stdout_loop s = OutFinished \<and> stderr_loop s = OutFinished
           then OwnerReleased else OwnerWaiting)"
    using w by (auto simp: finished_outputs_def)
  have sl: "stdin_loop s = stdin_loop (proxy_run answer (filter stdin_step steps) ?init)"
    and cn: "close_notifications s
      = close_notifications (proxy_run answer (filter stdin_step steps) ?init)"
    using sv by (simp_all add: stdin_view_def)
  have ow: "owner s
      = owner (proxy_run answer (filter (\<lambda>st. \<not> stdin_step st) steps) ?init)"
    using ov by (simp add: owner_view_def)
  have rel': "owner s = OwnerReleased \<longrightarrow> stdout_loop s = OutFinished \<and> stderr_loop s = OutFinished"
    using rel by (simp add: finished_outputs_two)
  show ?thesis
    by (intro conjI) (fact n next_closes sl cn w rel' wait ow)+
qed

text \<open>
  Two runs: the output loops finish and the owner is released while stdin is still being
  copied; and the local input ends while the owner waits for output loops that have not
  finished.
\<close>

lemma example_outputs_finish:
  "proxy_run None
     [StdoutCopyReturns None, StdoutNext, StdoutNext, StderrCopyReturns None, StderrNext,
      StderrNext, OwnerNext, OwnerNext] (proxyStdio ''c1'' ''init'')
   = \<lparr>target = (''c1'', ''init''), stdin_loop = StdinCopy, stdout_loop = OutFinished,
      stderr_loop = OutFinished, wg = 0, owner = OwnerReleased,
      events = [LoggedStdout None, LoggedStderr None]\<rparr>"
  by (simp add: proxyStdio_def)

lemma example_stdin_ends:
  "proxy_run None [StdinCopyReturns None, OwnerNext] (proxyStdio ''c1'' ''init'')
   = \<lparr>target = (''c1'', ''init''), stdin_loop = StdinClose None, stdout_loop = OutCopy,
      stderr_loop = OutCopy, wg = 2, owner = OwnerWaiting, events = []\<rparr>"
  by (simp add: proxyStdio_def)

theorem stdio_proxy_asymmetry_witness:
  "proxy_run None
     [StdoutCopyReturns None, StdoutNext, StdoutNext, StderrCopyReturns None, StderrNext,
      StderrNext, OwnerNext, OwnerNext] (proxyStdio ''c1'' ''init'')
   = \<lparr>target = (''c1'', ''init''), stdin_loop = StdinCopy, stdout_loop = OutFinished,
      stderr_loop = OutFinished, wg = 0, owner = OwnerReleased,
      events = [LoggedStdout None, LoggedStderr None]\<rparr>
   \<and> close_notifications
       \<lparr>target = (''c1'', ''init''), stdin_loop = StdinCopy, stdout_loop = OutFinished,
        stderr_loop = OutFinished, wg = 0, owner = OwnerReleased,
        events = [LoggedStdout None, LoggedStderr None]\<rparr> = []
   \<and> proxy_run None [StdinCopyReturns None, OwnerNext] (proxyStdio ''c1'' ''init'')
   = \<lparr>target = (''c1'', ''init''), stdin_loop = StdinClose None, stdout_loop = OutCopy,
      stderr_loop = OutCopy, wg = 2, owner = OwnerWaiting, events = []\<rparr>
   \<and> close_notifications (proxy_exec None StdinNext
       \<lparr>target = (''c1'', ''init''), stdin_loop = StdinClose None, stdout_loop = OutCopy,
        stderr_loop = OutCopy, wg = 2, owner = OwnerWaiting, events = []\<rparr>)
     = [CloseStdin ''c1'' ''init'']
   \<and> owner (proxy_exec None OwnerNext
       \<lparr>target = (''c1'', ''init''), stdin_loop = StdinClose None, stdout_loop = OutCopy,
        stderr_loop = OutCopy, wg = 2, owner = OwnerWaiting, events = []\<rparr>) = OwnerWaiting"
proof -
  let ?r = "\<lparr>target = (''c1'', ''init''), stdin_loop = StdinCopy, stdout_loop = OutFinished,
      stderr_loop = OutFinished, wg = 0, owner = OwnerReleased,
      events = [LoggedStdout None, LoggedStderr None]\<rparr>"
  let ?q = "\<lparr>target = (''c1'', ''init''), stdin_loop = StdinClose None, stdout_loop = OutCopy,
      stderr_loop = OutCopy, wg = 2, owner = OwnerWaiting, events = []\<rparr>"
  note t = stdio_proxy_asymmetry [OF example_outputs_finish [symmetric]]
  note u = stdio_proxy_asymmetry [OF example_stdin_ends [symmetric]]
  have "close_notifications ?r
      = (if stdin_closed (stdin_loop ?r) then [CloseStdin ''c1'' ''init''] else [])"
    by (rule t [THEN conjunct1])
  then have a: "close_notifications ?r = []"
    by simp
  have "stdin_loop ?q = StdinClose None \<longrightarrow>
      close_notifications (proxy_exec None StdinNext ?q) = [CloseStdin ''c1'' ''init'']"
    by (rule u [THEN conjunct2, THEN conjunct1])
  then have b: "close_notifications (proxy_exec None StdinNext ?q) = [CloseStdin ''c1'' ''init'']"
    by simp
  have c: "owner (proxy_exec None OwnerNext ?q) = OwnerWaiting"
    by simp
  show ?thesis
    using a b c example_outputs_finish example_stdin_ends by (intro conjI)
qed

subsection \<open>One close for every way the copy of stdin ends\<close>

text \<open>
  Claim C10. Under any interleaving the agent is sent at most one close-stdin
  notification. Whatever the copy of stdin returns, nil at the end of the input or the
  error of either end, once it has returned and the stdin goroutine has run its next
  statement the agent has been sent exactly one. Run on its own, the goroutine sends the
  notification and then logs the result of the copy and the agent's answer.
\<close>

theorem close_stdin_once:
  "length (close_notifications (proxy_run answer steps (proxyStdio ctr proc))) \<le> 1
   \<and> (StdinNext \<in> set later \<longrightarrow>
        close_notifications
          (proxy_run answer (before @ StdinCopyReturns err1 # later) (proxyStdio ctr proc))
          = [CloseStdin ctr proc])
   \<and> events (proxy_run answer [StdinCopyReturns err1, StdinNext, StdinNext] (proxyStdio ctr proc))
        = [CloseStdin ctr proc, LoggedStdin err1 answer]"
proof (intro conjI impI)
  show "length (close_notifications (proxy_run answer steps (proxyStdio ctr proc))) \<le> 1"
    by (simp add: reached_notifications)
next
  assume a: "StdinNext \<in> set later"
  let ?s1 = "proxy_exec answer (StdinCopyReturns err1) (proxy_run answer before (proxyStdio ctr proc))"
  have "stdin_returned (stdin_loop ?s1)"
    by (rule stdin_copy_returns)
  then have "stdin_closed (stdin_loop (proxy_run answer later ?s1))"
    using a by (rule stdin_closed_after_next)
  moreover have "proxy_run answer (before @ StdinCopyReturns err1 # later) (proxyStdio ctr proc)
      = proxy_run answer later ?s1"
    by (simp add: proxy_run_append)
  ultimately show "close_notifications
      (proxy_run answer (before @ StdinCopyReturns err1 # later) (proxyStdio ctr proc))
      = [CloseStdin ctr proc]"
    using reached_notifications [of answer "before @ StdinCopyReturns err1 # later" ctr proc]
    by simp
next
  show "events (proxy_run answer [StdinCopyReturns err1, StdinNext, StdinNext] (proxyStdio ctr proc))
      = [CloseStdin ctr proc, LoggedStdin err1 answer]"
    by (simp add: proxyStdio_def)
qed

theorem close_stdin_once_witness:
  "close_notifications
     (proxy_run None
        ([StdoutCopyReturns None] @ StdinCopyReturns (Some ''write: broken pipe'')
           # [StderrCopyReturns None, StdinNext])
        (proxyStdio ''c1'' ''init''))
   = [CloseStdin ''c1'' ''init'']
   \<and> stdin_loop
     (proxy_run None
        ([StdoutCopyReturns None] @ StdinCopyReturns (Some ''write: broken pipe'')
           # [StderrCopyReturns None, StdinNext])
        (proxyStdio ''c1'' ''init''))
   = StdinLog (Some ''write: broken pipe'') None"
  using close_stdin_once [where answer = None and steps = "[]" and ctr = "''c1''"
      and proc = "''init''" and later = "[StderrCopyReturns None, StdinNext]"
      and before = "[StdoutCopyReturns None]" and ?err1.0 = "Some ''write: broken pipe''"]
  by (simp add: proxyStdio_def)

end
